theory Spec2Isabelle
  imports Main
begin

section \<open>The engine state of \<open>DAGLongestPath\<close>\<close>

text \<open>
  The class \<open>DAGLongestPath\<close> of \<open>dag_longest_path.py\<close> keeps eight attributes; the
  record below has one field per attribute, in the order of \<open>__init__\<close>. Python
  dictionaries are maps, Python sets are HOL sets, \<open>None\<close> is \<open>None\<close>. Weights are
  Python integers (\<open>int\<close>); labels are any type \<open>'l\<close>.
\<close>

record 'l dag =
  nodes :: "'l \<rightharpoonup> int"
  edges :: "'l \<rightharpoonup> 'l set"
  rev_edges :: "'l \<rightharpoonup> 'l set"
  unseen_sources :: "'l set"
  longest_in_weight :: "'l \<rightharpoonup> int"
  longest_in_route :: "'l \<rightharpoonup> 'l list"
  longest_route :: "'l list option"
  longest_route_weight :: "int option"

text \<open>
  Everything the methods can raise. The three \<open>ValueError\<close>s of the source differ in
  their message only, so the message is the constructor:
  \<open>NegativeWeight\<close> is \<open>ValueError("weight cannot be negative")\<close>,
  \<open>SourceNotNode l\<close> is \<open>ValueError("source l not a node")\<close> and
  \<open>TargetNotNode l\<close> is \<open>ValueError("target l not a node")\<close>.
  \<open>KeyError k\<close> is a dictionary subscript at a missing key and \<open>TypeError\<close> is
  the comparison \<open>None < number\<close>.
\<close>

datatype 'l error =
    NegativeWeight
  | SourceNotNode 'l
  | TargetNotNode 'l
  | KeyError 'l
  | TypeError

text \<open>
  A method call returns the exception it raised, if any, together with the state it
  leaves behind: an exception does not undo the assignments made before it.
\<close>

type_synonym 'l outcome = "'l error option \<times> 'l dag"

definition init :: "'l dag" where
  "init = \<lparr> nodes = Map.empty, edges = Map.empty, rev_edges = Map.empty,
            unseen_sources = {}, longest_in_weight = Map.empty,
            longest_in_route = Map.empty, longest_route = None,
            longest_route_weight = None \<rparr>"

section \<open>Building the graph\<close>

definition add_node :: "'l \<Rightarrow> int \<Rightarrow> 'l dag \<Rightarrow> 'l outcome" where
  "add_node label weight s =
     (if weight < 0 then (Some NegativeWeight, s)
      else (None, s\<lparr> nodes := (nodes s)(label \<mapsto> weight),
                      edges := (edges s)(label \<mapsto> {}),
                      rev_edges := (rev_edges s)(label \<mapsto> {}),
                      unseen_sources := insert label (unseen_sources s) \<rparr>))"

text \<open>
  \<open>self.edges[source].add(target)\<close> and \<open>self.rev_edges[target].add(source)\<close>
  subscript two dictionaries; each subscript is a \<open>KeyError\<close> branch, the second
  one after the first assignment has happened.
\<close>

definition add_edge :: "'l \<Rightarrow> 'l \<Rightarrow> 'l dag \<Rightarrow> 'l outcome" where
  "add_edge source target s =
     (if source \<notin> dom (nodes s) then (Some (SourceNotNode source), s)
      else if target \<notin> dom (nodes s) then (Some (TargetNotNode target), s)
      else (case edges s source of
              None \<Rightarrow> (Some (KeyError source), s)
            | Some T \<Rightarrow>
                (let s1 = s\<lparr> edges := (edges s)(source \<mapsto> insert target T) \<rparr> in
                 case rev_edges s1 target of
                   None \<Rightarrow> (Some (KeyError target), s1)
                 | Some R \<Rightarrow>
                     (None, s1\<lparr> rev_edges := (rev_edges s1)(target \<mapsto> insert source R),
                                 unseen_sources := unseen_sources s1 - {target} \<rparr>))))"

text \<open>A caller's sequence of construction calls; it stops at the first exception.\<close>

datatype 'l call = AddNode 'l int | AddEdge 'l 'l

fun apply_call :: "'l call \<Rightarrow> 'l dag \<Rightarrow> 'l outcome" where
  "apply_call (AddNode label weight) s = add_node label weight s"
| "apply_call (AddEdge source target) s = add_edge source target s"

fun build :: "'l call list \<Rightarrow> 'l dag \<Rightarrow> 'l outcome" where
  "build [] s = (None, s)"
| "build (c # cs) s =
     (case apply_call c s of
        (Some e, s') \<Rightarrow> (Some e, s')
      | (None, s') \<Rightarrow> build cs s')"

section \<open>The traversal\<close>

text \<open>\<open>d.get(k, 0)\<close> and \<open>d.get(k, [])\<close>.\<close>

definition get0 :: "('l \<rightharpoonup> int) \<Rightarrow> 'l \<Rightarrow> int" where
  "get0 d k = (case d k of None \<Rightarrow> 0 | Some v \<Rightarrow> v)"

definition get_nil :: "('l \<rightharpoonup> 'l list) \<Rightarrow> 'l \<Rightarrow> 'l list" where
  "get_nil d k = (case d k of None \<Rightarrow> [] | Some r \<Rightarrow> r)"

text \<open>
  A \<open>for\<close> loop over a Python set visits its elements in an order the language does not
  fix. The two loops below take the order as a list \<open>ts\<close>; the driver only accepts a
  list that enumerates the set without repetition. Within one iteration of the
  \<open>while\<close> loop both \<open>for\<close> loops run over the same set object, which nothing
  modifies in between, so they share the order.

  The loop of \<open>__del_edges_from\<close> (lines 53 to 56): \<open>self.rev_edges[target]\<close> is a
  subscript, so a missing key raises in the middle of the loop. In
  \<open>del_edges_from\<close> the list \<open>ts\<close> is the order in which \<open>targets\<close> is visited.
\<close>

fun del_targets :: "'l \<Rightarrow> 'l list \<Rightarrow> 'l dag \<Rightarrow> 'l outcome" where
  "del_targets source [] s = (None, s)"
| "del_targets source (target # ts) s =
     (case rev_edges s target of
        None \<Rightarrow> (Some (KeyError target), s)
      | Some R \<Rightarrow>
          (let s1 = s\<lparr> rev_edges := (rev_edges s)(target \<mapsto> R - {source}) \<rparr>;
               s2 = (if R - {source} = {}
                     then s1\<lparr> unseen_sources := insert target (unseen_sources s1) \<rparr>
                     else s1)
           in del_targets source ts s2))"

definition del_edges_from :: "'l \<Rightarrow> 'l list \<Rightarrow> 'l dag \<Rightarrow> 'l outcome" where
  "del_edges_from source ts s =
     (case edges s source of
        None \<Rightarrow> (Some (KeyError source), s)
      | Some targets \<Rightarrow> del_targets source ts (s\<lparr> edges := (edges s)(source \<mapsto> {}) \<rparr>))"

text \<open>The relaxation loop of \<open>longest_path\<close> (lines 102 to 106).\<close>

fun relax :: "int \<Rightarrow> 'l list \<Rightarrow> 'l list \<Rightarrow> 'l dag \<Rightarrow> 'l dag" where
  "relax new_weight new_route [] s = s"
| "relax new_weight new_route (target # ts) s =
     relax new_weight new_route ts
       (if get0 (longest_in_weight s) target < new_weight
        then s\<lparr> longest_in_weight := (longest_in_weight s)(target \<mapsto> new_weight),
                longest_in_route := (longest_in_route s)(target \<mapsto> new_route) \<rparr>
        else s)"

text \<open>
  One iteration of the \<open>while\<close> loop (lines 90 to 108), for the element
  \<open>sourcenode\<close> that \<open>self.unseen_sources.pop()\<close> removed and the order \<open>ts\<close> in
  which the set \<open>self.edges[sourcenode]\<close> is iterated.
\<close>

definition loop_body :: "'l \<Rightarrow> 'l list \<Rightarrow> 'l dag \<Rightarrow> 'l outcome" where
  "loop_body sourcenode ts s =
     (let s0 = s\<lparr> unseen_sources := unseen_sources s - {sourcenode} \<rparr> in
      case nodes s0 sourcenode of
        None \<Rightarrow> (Some (KeyError sourcenode), s0)
      | Some w \<Rightarrow>
          (let new_weight = get0 (longest_in_weight s0) sourcenode + w;
               new_route = get_nil (longest_in_route s0) sourcenode @ [sourcenode]
           in case edges s0 sourcenode of
                None \<Rightarrow> (Some (KeyError sourcenode), s0)
              | Some T \<Rightarrow>
                  if T = {} then
                    (if longest_route s0 = None
                     then (None, s0\<lparr> longest_route := Some new_route,
                                     longest_route_weight := Some new_weight \<rparr>)
                     else (case longest_route_weight s0 of
                             None \<Rightarrow> (Some TypeError, s0)
                           | Some best \<Rightarrow>
                               if best < new_weight
                               then (None, s0\<lparr> longest_route := Some new_route,
                                               longest_route_weight := Some new_weight \<rparr>)
                               else (None, s0)))
                  else del_edges_from sourcenode ts (relax new_weight new_route ts s0)))"

text \<open>
  \<open>set.pop()\<close> removes an arbitrary element. A \<^emph>\<open>choice\<close> is the element popped
  together with the iteration order of its successor set; it is admissible in a state
  when the element is in the frontier and the order enumerates \<open>self.edges[sourcenode]\<close>.
\<close>

type_synonym 'l choice = "'l \<times> 'l list"

definition admissible :: "'l dag \<Rightarrow> 'l choice \<Rightarrow> bool" where
  "admissible s c =
     (fst c \<in> unseen_sources s \<and>
      (case edges s (fst c) of
         None \<Rightarrow> True
       | Some T \<Rightarrow> set (snd c) = T \<and> distinct (snd c)))"

text \<open>
  \<open>iterate cs s\<close> runs the loop body once per choice of \<open>cs\<close>. It is \<open>None\<close> when
  some choice is not admissible in the state it meets (no execution makes these
  choices); an exception ends the run at once.
\<close>

fun iterate :: "'l choice list \<Rightarrow> 'l dag \<Rightarrow> 'l outcome option" where
  "iterate [] s = Some (None, s)"
| "iterate (c # cs) s =
     (if admissible s c
      then (case loop_body (fst c) (snd c) s of
              (Some e, s') \<Rightarrow> Some (Some e, s')
            | (None, s') \<Rightarrow> iterate cs s')
      else None)"

text \<open>
  \<open>longest_path cs s\<close> is the call \<open>longest_path()\<close> whose loop makes exactly the
  choices \<open>cs\<close>: the loop leaves only when the frontier is empty, and then the method
  returns the pair \<open>(self.longest_route, self.longest_route_weight)\<close>. It is
  \<open>None\<close> when no call makes exactly these choices: one of them is not admissible,
  or the frontier is not empty after the last one. The result comes with the state the
  call leaves, since the method consumes the object.
\<close>

definition longest_path ::
  "'l choice list \<Rightarrow> 'l dag \<Rightarrow> (('l error + 'l list option \<times> int option) \<times> 'l dag) option" where
  "longest_path cs s =
     (case iterate cs s of
        None \<Rightarrow> None
      | Some (Some e, s') \<Rightarrow> Some (Inl e, s')
      | Some (None, s') \<Rightarrow>
          if unseen_sources s' = {}
          then Some (Inr (longest_route s', longest_route_weight s'), s')
          else None)"

section \<open>Specification vocabulary\<close>

text \<open>
  The forward view holds an edge from \<open>a\<close> to \<open>b\<close> when \<open>b\<close> is in
  \<open>self.edges[a]\<close>; the reverse view holds it when \<open>a\<close> is in
  \<open>self.rev_edges[b]\<close>. The views are synchronized when they hold the same edges.
\<close>

definition has_edge :: "'l dag \<Rightarrow> 'l \<Rightarrow> 'l \<Rightarrow> bool" where
  "has_edge s a b = (case edges s a of None \<Rightarrow> False | Some T \<Rightarrow> b \<in> T)"

definition has_rev_edge :: "'l dag \<Rightarrow> 'l \<Rightarrow> 'l \<Rightarrow> bool" where
  "has_rev_edge s a b = (case rev_edges s b of None \<Rightarrow> False | Some R \<Rightarrow> a \<in> R)"

definition views_sync :: "'l dag \<Rightarrow> bool" where
  "views_sync s = (\<forall>a b. has_edge s a b = has_rev_edge s a b)"

text \<open>
  The states of the engine: the fresh object, and every state that a call of
  \<open>add_node\<close> or \<open>add_edge\<close> (raising or not) or an iteration of the loop of
  \<open>longest_path\<close> leaves behind.
\<close>

inductive engine_state :: "'l dag \<Rightarrow> bool" where
  es_init: "engine_state init"
| es_add_node: "engine_state s \<Longrightarrow> engine_state (snd (add_node label weight s))"
| es_add_edge: "engine_state s \<Longrightarrow> engine_state (snd (add_edge source target s))"
| es_pop: "engine_state s \<Longrightarrow> admissible s (sourcenode, ts) \<Longrightarrow>
           engine_state (snd (loop_body sourcenode ts s))"

text \<open>
  What every engine state satisfies: the three dictionaries of the graph store have the
  same keys, every member of an adjacency set is a registered node, and the two halves
  of the global best are \<open>None\<close> together.
\<close>

definition keys_ok :: "'l dag \<Rightarrow> bool" where
  "keys_ok s = (dom (edges s) = dom (nodes s) \<and> dom (rev_edges s) = dom (nodes s))"

definition endpoints_ok :: "'l dag \<Rightarrow> bool" where
  "endpoints_ok s =
     ((\<forall>a T. edges s a = Some T \<longrightarrow> T \<subseteq> dom (nodes s)) \<and>
      (\<forall>b R. rev_edges s b = Some R \<longrightarrow> R \<subseteq> dom (nodes s)))"

definition best_ok :: "'l dag \<Rightarrow> bool" where
  "best_ok s = (longest_route s = None \<longleftrightarrow> longest_route_weight s = None)"

definition engine_inv :: "'l dag \<Rightarrow> bool" where
  "engine_inv s = (keys_ok s \<and> endpoints_ok s \<and> best_ok s)"

text \<open>
  The finalized weight and route of a popped node: \<open>new_weight\<close> and
  \<open>new_route\<close> of lines 92 and 93.
\<close>

definition new_weight_of :: "'l dag \<Rightarrow> 'l \<Rightarrow> int" where
  "new_weight_of s n = get0 (longest_in_weight s) n + get0 (nodes s) n"

definition new_route_of :: "'l dag \<Rightarrow> 'l \<Rightarrow> 'l list" where
  "new_route_of s n = get_nil (longest_in_route s) n @ [n]"

text \<open>A label is isolated when the forward view holds no edge from it or to it.\<close>

definition isolated :: "'l dag \<Rightarrow> 'l \<Rightarrow> bool" where
  "isolated s l = (\<forall>x. \<not> has_edge s l x \<and> \<not> has_edge s x l)"

section \<open>Graphs, paths and the invariants of the loop\<close>

text \<open>
  The graph that a state \<open>g\<close> holds: its nodes are the keys of \<open>self.nodes\<close>, the
  weight of a node is its entry there, and its edges are those of the forward view. A
  directed path is a non-empty sequence of nodes in which each node has an edge to the
  next; a single node is a path. The weight of a path is the sum of its node weights.
\<close>

definition weight_of :: "'l dag \<Rightarrow> 'l \<Rightarrow> int" where
  "weight_of g l = get0 (nodes g) l"

definition preds :: "'l dag \<Rightarrow> 'l \<Rightarrow> 'l set" where
  "preds g b = (case rev_edges g b of None \<Rightarrow> {} | Some R \<Rightarrow> R)"

definition is_path :: "'l dag \<Rightarrow> 'l list \<Rightarrow> bool" where
  "is_path g p = (p \<noteq> [] \<and> set p \<subseteq> dom (nodes g) \<and> successively (has_edge g) p)"

definition path_weight :: "'l dag \<Rightarrow> 'l list \<Rightarrow> int" where
  "path_weight g p = sum_list (map (weight_of g) p)"

text \<open>
  A state as construction leaves it, before any traversal: finitely many nodes, the
  invariant of engine states, the frontier holding exactly the nodes whose reverse
  adjacency set is empty, no negative weight, and empty best-path tables.
\<close>

definition fresh_graph :: "'l dag \<Rightarrow> bool" where
  "fresh_graph g =
     (finite (dom (nodes g)) \<and> engine_inv g \<and>
      unseen_sources g = {l \<in> dom (nodes g). rev_edges g l = Some {}} \<and>
      (\<forall>l. 0 \<le> weight_of g l) \<and>
      longest_in_weight g = Map.empty \<and> longest_in_route g = Map.empty \<and>
      longest_route g = None \<and> longest_route_weight g = None)"

text \<open>
  The invariants of the loop of \<open>longest_path\<close>, relative to the graph \<open>g\<close> the call
  started from and the set \<open>D\<close> of nodes finalized so far. The store: finalized nodes
  have lost their outgoing edges, and the frontier holds the nodes not yet finalized all
  of whose predecessors are.
\<close>

definition store_inv :: "'l dag \<Rightarrow> 'l set \<Rightarrow> 'l dag \<Rightarrow> bool" where
  "store_inv g D s =
     (nodes s = nodes g \<and>
      (\<forall>a. edges s a = (if a \<in> D then map_option (\<lambda>T. {}) (edges g a) else edges g a)) \<and>
      (\<forall>b. rev_edges s b = map_option (\<lambda>R. R - D) (rev_edges g b)) \<and>
      D \<subseteq> dom (nodes g) \<and>
      unseen_sources s = {b \<in> dom (nodes g). b \<notin> D \<and> preds g b \<subseteq> D} \<and>
      (\<forall>b. b \<in> D \<longrightarrow> preds g b \<subseteq> D))"

text \<open>
  The best-path table: the entry of \<open>t\<close> is a path of \<open>g\<close> that ends at a finalized
  predecessor of \<open>t\<close>, its weight is the recorded one, and no path ending at a
  finalized predecessor of \<open>t\<close> is heavier.
\<close>

definition table_inv :: "'l dag \<Rightarrow> 'l set \<Rightarrow> 'l dag \<Rightarrow> bool" where
  "table_inv g D s =
     (\<forall>t. path_weight g (get_nil (longest_in_route s) t) = get0 (longest_in_weight s) t \<and>
          (get_nil (longest_in_route s) t \<noteq> [] \<longrightarrow>
             is_path g (get_nil (longest_in_route s) t) \<and>
             last (get_nil (longest_in_route s) t) \<in> D \<and>
             has_edge g (last (get_nil (longest_in_route s) t)) t) \<and>
          (\<forall>p. is_path g p \<and> last p \<in> D \<and> has_edge g (last p) t \<longrightarrow>
             path_weight g p \<le> get0 (longest_in_weight s) t))"

text \<open>
  The global best: a path of \<open>g\<close> with the recorded weight, at least as heavy as every
  path that ends at a finalized node without outgoing edges.
\<close>

definition best_inv :: "'l dag \<Rightarrow> 'l set \<Rightarrow> 'l dag \<Rightarrow> bool" where
  "best_inv g D s =
     (best_ok s \<and>
      (\<forall>r. longest_route s = Some r \<longrightarrow>
         is_path g r \<and> longest_route_weight s = Some (path_weight g r)) \<and>
      (\<forall>p. is_path g p \<and> last p \<in> D \<and> edges g (last p) = Some {} \<longrightarrow>
         (\<exists>W. longest_route_weight s = Some W \<and> path_weight g p \<le> W)))"

definition loop_inv :: "'l dag \<Rightarrow> 'l set \<Rightarrow> 'l dag \<Rightarrow> bool" where
  "loop_inv g D s = (store_inv g D s \<and> table_inv g D s \<and> best_inv g D s)"

text \<open>The edge relation of the forward view; the graph is acyclic when this relation is.\<close>

definition edge_rel :: "'l dag \<Rightarrow> ('l \<times> 'l) set" where
  "edge_rel g = {(a, b). has_edge g a b}"

text \<open>
  The maximum of the path weights of a graph; \<open>None\<close> when the graph has no path at
  all, which is the case exactly when it has no node.
\<close>

definition max_path_weight :: "'l dag \<Rightarrow> int option" where
  "max_path_weight g =
     (if \<exists>p. is_path g p then Some (Max (path_weight g ` {p. is_path g p})) else None)"

text \<open>
  A weaker invariant of the loop that needs neither synchronized views nor acyclicity:
  every route in the best-path table and the global best route follow edges of the
  graph \<open>g\<close> the call started from, and carry the recorded weight.
\<close>

definition route_inv :: "'l dag \<Rightarrow> 'l dag \<Rightarrow> bool" where
  "route_inv g s =
     (nodes s = nodes g \<and> engine_inv s \<and> unseen_sources s \<subseteq> dom (nodes g) \<and>
      (\<forall>a b. has_edge s a b \<longrightarrow> has_edge g a b) \<and>
      (\<forall>t. path_weight g (get_nil (longest_in_route s) t) = get0 (longest_in_weight s) t \<and>
           (get_nil (longest_in_route s) t \<noteq> [] \<longrightarrow>
              is_path g (get_nil (longest_in_route s) t) \<and>
              has_edge g (last (get_nil (longest_in_route s) t)) t)) \<and>
      (\<forall>r. longest_route s = Some r \<longrightarrow>
         is_path g r \<and> longest_route_weight s = Some (path_weight g r)))"

text \<open>
  A sequence of construction calls is write-once when no label is passed to
  \<open>add_node\<close> twice.
\<close>

fun added_labels :: "'l call list \<Rightarrow> 'l list" where
  "added_labels [] = []"
| "added_labels (AddNode label weight # cs) = label # added_labels cs"
| "added_labels (AddEdge source target # cs) = added_labels cs"

definition write_once :: "'l call list \<Rightarrow> bool" where
  "write_once cs = distinct (added_labels cs)"

text \<open>
  Two concrete states for the instances below: a graph with the edges \<open>0 \<rightarrow> 2\<close> and
  \<open>1 \<rightarrow> 2\<close> and unit weights, and three unconnected nodes of weights 4, 4 and 5 after
  node 0 has been finalized.
\<close>

definition fork_calls :: "nat call list" where
  "fork_calls = [AddNode 0 1, AddNode 1 1, AddNode 2 1, AddEdge 0 2, AddEdge 1 2]"

definition fork :: "nat dag" where
  "fork = snd (build fork_calls init)"

definition two_equal :: "nat dag" where
  "two_equal = snd (loop_body 0 [] (snd (build [AddNode 0 4, AddNode 1 4, AddNode 2 5] init)))"

text \<open>
  A bound on the iterations the loop can still make: an iteration that finds outgoing
  edges empties one forward adjacency set for good, and one that finds none shrinks the
  frontier, which never holds more labels than there are nodes.
\<close>

definition loop_measure :: "'l dag \<Rightarrow> nat" where
  "loop_measure s =
     card {a. \<exists>T. edges s a = Some T \<and> T \<noteq> {}} * (card (dom (nodes s)) + 1) +
     card (unseen_sources s)"

text \<open>
  Three states built with a label added twice. In the first, node 0 is re-added after
  the edge from 0 to 1: the reverse set of node 1 keeps the stale entry 0. In the
  second, node 0 is re-added after the edge from 1 to 0: the forward set of node 1
  keeps the stale entry 0. In the third, node 1 is re-added between the edges of the
  chain from 0 over 1 to 2.
\<close>

definition stale_target_calls :: "nat call list" where
  "stale_target_calls = [AddNode 0 1, AddNode 1 10, AddEdge 0 1, AddNode 0 1]"

definition stale_target :: "nat dag" where
  "stale_target = snd (build stale_target_calls init)"

definition stale_source_calls :: "nat call list" where
  "stale_source_calls = [AddNode 1 1, AddNode 0 1, AddEdge 1 0, AddNode 0 1]"

definition stale_source :: "nat dag" where
  "stale_source = snd (build stale_source_calls init)"

definition stale_chain_calls :: "nat call list" where
  "stale_chain_calls =
     [AddNode 0 1, AddNode 1 1, AddNode 2 1, AddEdge 0 1, AddNode 1 1, AddEdge 1 2]"

definition stale_chain :: "nat dag" where
  "stale_chain = snd (build stale_chain_calls init)"

section \<open>Frame lemmas for the loops\<close>

lemma relax_frame [simp]:
  "nodes (relax nw nr ts s) = nodes s"
  "edges (relax nw nr ts s) = edges s"
  "rev_edges (relax nw nr ts s) = rev_edges s"
  "unseen_sources (relax nw nr ts s) = unseen_sources s"
  "longest_route (relax nw nr ts s) = longest_route s"
  "longest_route_weight (relax nw nr ts s) = longest_route_weight s"
  by (induction ts arbitrary: s) simp_all

lemma relax_weight:
  "longest_in_weight (relax nw nr ts s) t =
     (if t \<in> set ts \<and> get0 (longest_in_weight s) t < nw then Some nw
      else longest_in_weight s t)"
  by (induction ts arbitrary: s) (auto simp: get0_def)

lemma relax_route:
  "longest_in_route (relax nw nr ts s) t =
     (if t \<in> set ts \<and> get0 (longest_in_weight s) t < nw then Some nr
      else longest_in_route s t)"
  by (induction ts arbitrary: s) (auto simp: get0_def)

lemma del_targets_frame [simp]:
  "nodes (snd (del_targets src ts s)) = nodes s"
  "edges (snd (del_targets src ts s)) = edges s"
  "longest_in_weight (snd (del_targets src ts s)) = longest_in_weight s"
  "longest_in_route (snd (del_targets src ts s)) = longest_in_route s"
  "longest_route (snd (del_targets src ts s)) = longest_route s"
  "longest_route_weight (snd (del_targets src ts s)) = longest_route_weight s"
  by (induction ts arbitrary: s) (simp_all add: Let_def split: option.splits)

lemma del_edges_from_nodes [simp]: "nodes (snd (del_edges_from src ts s)) = nodes s"
  by (simp add: del_edges_from_def split: option.splits)

lemma loop_body_nodes [simp]: "nodes (snd (loop_body n ts s)) = nodes s"
  by (simp add: loop_body_def Let_def split: option.splits)

lemma iterate_nodes: "iterate cs s = Some (e, s') \<Longrightarrow> nodes s' = nodes s"
proof (induction cs arbitrary: s)
  case Nil
  then show ?case by simp
next
  case (Cons c cs)
  obtain e1 s1 where b: "loop_body (fst c) (snd c) s = (e1, s1)"
    by (cases "loop_body (fst c) (snd c) s")
  have n1: "nodes s1 = nodes s"
    using loop_body_nodes [of "fst c" "snd c" s] b by simp
  show ?case
  proof (cases e1)
    case None
    with Cons.prems b have "iterate cs s1 = Some (e, s')"
      by (simp split: if_splits)
    with Cons.IH n1 show ?thesis by simp
  next
    case (Some x)
    with Cons.prems b have "s' = s1" by (simp split: if_splits)
    with n1 show ?thesis by simp
  qed
qed

lemma longest_path_nodes:
  "longest_path cs s = Some (r, s') \<Longrightarrow> nodes s' = nodes s"
  by (auto simp: longest_path_def split: option.splits if_splits dest: iterate_nodes)

section \<open>The invariant of engine states\<close>

lemma engine_inv_init: "engine_inv init"
  by (simp add: engine_inv_def keys_ok_def endpoints_ok_def best_ok_def init_def)

lemma keys_ok_add_node: "keys_ok s \<Longrightarrow> keys_ok (snd (add_node l w s))"
  by (auto simp: keys_ok_def add_node_def)

lemma endpoints_ok_add_node: "endpoints_ok s \<Longrightarrow> endpoints_ok (snd (add_node l w s))"
  unfolding endpoints_ok_def add_node_def
  by (auto split: if_splits) blast

lemma best_ok_add_node: "best_ok s \<Longrightarrow> best_ok (snd (add_node l w s))"
  by (simp add: best_ok_def add_node_def)

lemma keys_ok_add_edge: "keys_ok s \<Longrightarrow> keys_ok (snd (add_edge a b s))"
  by (auto simp: keys_ok_def add_edge_def Let_def split: option.splits)

lemma endpoints_ok_add_edge: "endpoints_ok s \<Longrightarrow> endpoints_ok (snd (add_edge a b s))"
  unfolding endpoints_ok_def add_edge_def Let_def
  by (auto split: if_splits option.splits)

lemma best_ok_add_edge: "best_ok s \<Longrightarrow> best_ok (snd (add_edge a b s))"
  by (simp add: best_ok_def add_edge_def Let_def split: option.splits)

lemma del_targets_rev_edges:
  "set ts \<subseteq> dom (rev_edges s) \<Longrightarrow>
   fst (del_targets src ts s) = None \<and>
   rev_edges (snd (del_targets src ts s)) =
     (\<lambda>t. if t \<in> set ts then map_option (\<lambda>R. R - {src}) (rev_edges s t) else rev_edges s t)"
proof (induction ts arbitrary: s)
  case Nil
  then show ?case by simp
next
  case (Cons t ts)
  then obtain R where R: "rev_edges s t = Some R" by auto
  let ?s1 = "s\<lparr> rev_edges := (rev_edges s)(t \<mapsto> R - {src}) \<rparr>"
  let ?s2 = "(if R - {src} = {} then ?s1\<lparr> unseen_sources := insert t (unseen_sources ?s1) \<rparr> else ?s1)"
  have step: "del_targets src (t # ts) s = del_targets src ts ?s2"
    using R by (simp add: Let_def)
  have r2: "rev_edges ?s2 = (rev_edges s)(t \<mapsto> R - {src})" by simp
  have sub: "set ts \<subseteq> dom (rev_edges ?s2)" using Cons.prems r2 by auto
  from Cons.IH [OF sub] r2 R show ?case
    unfolding step by (auto simp: fun_eq_iff)
qed

lemma del_targets_unseen:
  "set ts \<subseteq> dom (rev_edges s) \<Longrightarrow>
   unseen_sources (snd (del_targets src ts s)) =
     unseen_sources s \<union> {t \<in> set ts. \<exists>R. rev_edges s t = Some R \<and> R - {src} = {}}"
proof (induction ts arbitrary: s)
  case Nil
  then show ?case by simp
next
  case (Cons t ts)
  then obtain R where R: "rev_edges s t = Some R" by auto
  let ?s1 = "s\<lparr> rev_edges := (rev_edges s)(t \<mapsto> R - {src}) \<rparr>"
  let ?s2 = "(if R - {src} = {} then ?s1\<lparr> unseen_sources := insert t (unseen_sources ?s1) \<rparr> else ?s1)"
  have step: "del_targets src (t # ts) s = del_targets src ts ?s2"
    using R by (simp add: Let_def)
  have r2: "rev_edges ?s2 = (rev_edges s)(t \<mapsto> R - {src})" by simp
  have u2: "unseen_sources ?s2 = (if R - {src} = {} then insert t (unseen_sources s) else unseen_sources s)" by simp
  have sub: "set ts \<subseteq> dom (rev_edges ?s2)" using Cons.prems r2 by auto
  show ?case
    unfolding step Cons.IH [OF sub] r2 u2 using R by auto
qed

lemma del_targets_ok: "set ts \<subseteq> dom (rev_edges s) \<Longrightarrow> fst (del_targets src ts s) = None"
  using del_targets_rev_edges [of ts s src] by simp

lemma del_targets_rev:
  "set ts \<subseteq> dom (rev_edges s) \<Longrightarrow>
   rev_edges (snd (del_targets src ts s)) t =
     (if t \<in> set ts then map_option (\<lambda>R. R - {src}) (rev_edges s t) else rev_edges s t)"
  using del_targets_rev_edges [of ts s src] by simp

lemma loop_body_terminal:
  assumes "nodes s n = Some w" and "edges s n = Some {}" and "best_ok s"
  shows "loop_body n ts s =
     (None, if longest_route s = None \<or> (\<exists>b. longest_route_weight s = Some b \<and> b < new_weight_of s n)
            then s\<lparr> unseen_sources := unseen_sources s - {n},
                    longest_route := Some (new_route_of s n),
                    longest_route_weight := Some (new_weight_of s n) \<rparr>
            else s\<lparr> unseen_sources := unseen_sources s - {n} \<rparr>)"
  using assms
  by (auto simp: loop_body_def Let_def best_ok_def new_weight_of_def new_route_of_def get0_def
           split: option.splits)

lemma loop_body_inner:
  assumes "nodes s n = Some w" and "edges s n = Some T" and "T \<noteq> {}"
    and "set ts = T" and "T \<subseteq> dom (rev_edges s)"
  shows "fst (loop_body n ts s) = None"
    and "nodes (snd (loop_body n ts s)) = nodes s"
    and "edges (snd (loop_body n ts s)) = (edges s)(n \<mapsto> {})"
    and "rev_edges (snd (loop_body n ts s)) t =
           (if t \<in> T then map_option (\<lambda>R. R - {n}) (rev_edges s t) else rev_edges s t)"
    and "unseen_sources (snd (loop_body n ts s)) =
           (unseen_sources s - {n}) \<union> {t \<in> T. \<exists>R. rev_edges s t = Some R \<and> R - {n} = {}}"
    and "longest_in_weight (snd (loop_body n ts s)) t =
           (if t \<in> T \<and> get0 (longest_in_weight s) t < new_weight_of s n
            then Some (new_weight_of s n) else longest_in_weight s t)"
    and "longest_in_route (snd (loop_body n ts s)) t =
           (if t \<in> T \<and> get0 (longest_in_weight s) t < new_weight_of s n
            then Some (new_route_of s n) else longest_in_route s t)"
    and "longest_route (snd (loop_body n ts s)) = longest_route s"
    and "longest_route_weight (snd (loop_body n ts s)) = longest_route_weight s"
proof -
  let ?s0 = "s\<lparr> unseen_sources := unseen_sources s - {n} \<rparr>"
  let ?s1 = "relax (new_weight_of s n) (new_route_of s n) ts ?s0"
  let ?s2 = "?s1\<lparr> edges := (edges ?s1)(n \<mapsto> {}) \<rparr>"
  have body: "loop_body n ts s = del_targets n ts ?s2"
    using assms(1-3)
    by (simp add: loop_body_def Let_def del_edges_from_def new_weight_of_def new_route_of_def
                  get0_def)
  have sub: "set ts \<subseteq> dom (rev_edges ?s2)"
    using assms(4,5) by simp
  show "fst (loop_body n ts s) = None"
    unfolding body by (rule del_targets_ok [OF sub])
  show "nodes (snd (loop_body n ts s)) = nodes s"
    by simp
  show "edges (snd (loop_body n ts s)) = (edges s)(n \<mapsto> {})"
    unfolding body by simp
  show "rev_edges (snd (loop_body n ts s)) t =
           (if t \<in> T then map_option (\<lambda>R. R - {n}) (rev_edges s t) else rev_edges s t)"
    unfolding body del_targets_rev [OF sub] using assms(4) by simp
  show "unseen_sources (snd (loop_body n ts s)) =
           (unseen_sources s - {n}) \<union> {t \<in> T. \<exists>R. rev_edges s t = Some R \<and> R - {n} = {}}"
    unfolding body del_targets_unseen [OF sub] using assms(4) by simp
  show "longest_in_weight (snd (loop_body n ts s)) t =
           (if t \<in> T \<and> get0 (longest_in_weight s) t < new_weight_of s n
            then Some (new_weight_of s n) else longest_in_weight s t)"
    unfolding body using assms(4) by (simp add: relax_weight)
  show "longest_in_route (snd (loop_body n ts s)) t =
           (if t \<in> T \<and> get0 (longest_in_weight s) t < new_weight_of s n
            then Some (new_route_of s n) else longest_in_route s t)"
    unfolding body using assms(4) by (simp add: relax_route)
  show "longest_route (snd (loop_body n ts s)) = longest_route s"
    unfolding body by simp
  show "longest_route_weight (snd (loop_body n ts s)) = longest_route_weight s"
    unfolding body by simp
qed

lemma loop_body_engine_inv:
  assumes inv: "engine_inv s" and adm: "admissible s (n, ts)"
  shows "engine_inv (snd (loop_body n ts s))"
proof (cases "nodes s n")
  case None
  then show ?thesis using inv
    by (simp add: loop_body_def engine_inv_def keys_ok_def endpoints_ok_def best_ok_def)
next
  case (Some w)
  from inv have k: "keys_ok s" and e: "endpoints_ok s" and b: "best_ok s"
    by (simp_all add: engine_inv_def)
  from Some k obtain T where T: "edges s n = Some T"
    by (auto simp: keys_ok_def)
  show ?thesis
  proof (cases "T = {}")
    case True
    with T have "edges s n = Some {}" by simp
    from loop_body_terminal [OF Some this b] k e b show ?thesis
      by (auto simp: engine_inv_def keys_ok_def endpoints_ok_def best_ok_def)
  next
    case False
    from adm T have ts: "set ts = T" by (simp add: admissible_def)
    from e T k have sub: "T \<subseteq> dom (rev_edges s)"
      by (auto simp: endpoints_ok_def keys_ok_def)
    note lb = loop_body_inner [OF Some T False ts sub]
    let ?s' = "snd (loop_body n ts s)"
    have dr: "dom (rev_edges ?s') = dom (rev_edges s)"
      by (auto simp: lb(4) split: if_splits)
    have de: "dom (edges ?s') = dom (edges s)"
      using T unfolding lb(3) by auto
    have "keys_ok ?s'"
      using k unfolding keys_ok_def dr de lb(2) by simp
    moreover have "endpoints_ok ?s'"
      using e unfolding endpoints_ok_def lb(2,3)
      by (auto simp: lb(4) split: if_splits) blast+
    moreover have "best_ok ?s'"
      using b by (simp add: best_ok_def lb(8,9))
    ultimately show ?thesis by (simp add: engine_inv_def)
  qed
qed

lemma engine_state_inv: "engine_state s \<Longrightarrow> engine_inv s"
proof (induction rule: engine_state.induct)
  case es_init
  show ?case by (rule engine_inv_init)
next
  case (es_add_node s label weight)
  then show ?case
    by (simp add: engine_inv_def keys_ok_add_node endpoints_ok_add_node best_ok_add_node)
next
  case (es_add_edge s source target)
  then show ?case
    by (simp add: engine_inv_def keys_ok_add_edge endpoints_ok_add_edge best_ok_add_edge)
next
  case (es_pop s sourcenode ts)
  then show ?case by (simp add: loop_body_engine_inv)
qed

section \<open>Synchronized views\<close>

lemma views_sync_add_edge:
  assumes "keys_ok s" and "views_sync s"
  shows "views_sync (snd (add_edge a b s))"
proof (cases "a \<in> dom (nodes s) \<and> b \<in> dom (nodes s)")
  case False
  then show ?thesis using assms(2) by (auto simp: add_edge_def)
next
  case True
  with assms(1) obtain T R where T: "edges s a = Some T" and R: "rev_edges s b = Some R"
    by (auto simp: keys_ok_def) blast
  have e: "edges (snd (add_edge a b s)) = (edges s)(a \<mapsto> insert b T)"
    and r: "rev_edges (snd (add_edge a b s)) = (rev_edges s)(b \<mapsto> insert a R)"
    using True T R by (auto simp: add_edge_def Let_def)
  have fwd: "has_edge (snd (add_edge a b s)) x y = (has_edge s x y \<or> (x = a \<and> y = b))" for x y
    using T unfolding has_edge_def e by (auto split: option.splits)
  have bwd: "has_rev_edge (snd (add_edge a b s)) x y = (has_rev_edge s x y \<or> (x = a \<and> y = b))"
    for x y
    using R unfolding has_rev_edge_def r by (auto split: option.splits)
  show ?thesis
    using assms(2) unfolding views_sync_def fwd bwd by simp
qed

lemma views_sync_add_node:
  assumes "views_sync s" and "isolated s l"
  shows "views_sync (snd (add_node l w s))"
proof (cases "w < 0")
  case True
  then show ?thesis using assms(1) by (simp add: add_node_def)
next
  case False
  have e: "edges (snd (add_node l w s)) = (edges s)(l \<mapsto> {})"
    and r: "rev_edges (snd (add_node l w s)) = (rev_edges s)(l \<mapsto> {})"
    using False by (auto simp: add_node_def)
  have iso: "\<And>x. \<not> has_edge s l x" "\<And>x. \<not> has_edge s x l" 
    "\<And>x. \<not> has_rev_edge s l x" "\<And>x. \<not> has_rev_edge s x l"
    using assms unfolding isolated_def views_sync_def by auto
  show ?thesis
    unfolding views_sync_def
  proof (intro allI)
    fix a b
    show "has_edge (snd (add_node l w s)) a b = has_rev_edge (snd (add_node l w s)) a b"
      using iso [of b] iso [of a] assms(1)
      unfolding views_sync_def has_edge_def has_rev_edge_def e r
      by (auto split: option.splits)
  qed
qed

lemma unregistered_isolated:
  assumes "engine_inv s" and "l \<notin> dom (nodes s)"
  shows "isolated s l"
  using assms unfolding isolated_def engine_inv_def keys_ok_def endpoints_ok_def has_edge_def
  by (auto split: option.splits) blast

section \<open>Paths\<close>

lemma path_weight_append: "path_weight g (p @ q) = path_weight g p + path_weight g q"
  by (simp add: path_weight_def)

lemma path_weight_simps [simp]:
  "path_weight g [] = 0" "path_weight g [n] = weight_of g n"
  by (simp_all add: path_weight_def)

lemma path_weight_nonneg: "\<forall>l. 0 \<le> weight_of g l \<Longrightarrow> 0 \<le> path_weight g p"
  unfolding path_weight_def by (induction p) auto

lemma is_path_snoc:
  "is_path g (q @ [n]) \<longleftrightarrow>
     n \<in> dom (nodes g) \<and> (q = [] \<or> (is_path g q \<and> has_edge g (last q) n))"
  by (auto simp: is_path_def successively_append_iff)

lemma is_path_split_last: "is_path g p \<Longrightarrow> p = butlast p @ [last p]"
  by (simp add: is_path_def)

lemma is_path_single: "is_path g [n] \<longleftrightarrow> n \<in> dom (nodes g)"
  by (simp add: is_path_def)

lemma is_path_last_node:
  assumes "is_path g p"
  shows "last p \<in> dom (nodes g)"
proof -
  from assms have "p \<noteq> []" and sub: "set p \<subseteq> dom (nodes g)"
    by (simp_all add: is_path_def)
  then have "last p \<in> set p" by simp
  with sub show ?thesis by blast
qed

lemma sync_preds: "views_sync g \<Longrightarrow> has_edge g a b \<longleftrightarrow> a \<in> preds g b"
  by (auto simp: views_sync_def has_rev_edge_def preds_def split: option.splits)

text \<open>The finalized route of a frontier node is a longest path ending there.\<close>

lemma finalized_is_longest:
  assumes fg: "fresh_graph g" and sync: "views_sync g"
    and st: "store_inv g D s" and tb: "table_inv g D s"
    and n: "n \<in> unseen_sources s"
  shows "is_path g (new_route_of s n)"
    and "path_weight g (new_route_of s n) = new_weight_of s n"
    and "\<And>p. is_path g p \<Longrightarrow> last p = n \<Longrightarrow> path_weight g p \<le> new_weight_of s n"
proof -
  let ?r = "get_nil (longest_in_route s) n"
  let ?lw = "get0 (longest_in_weight s) n"
  from st n have nd: "n \<in> dom (nodes g)" and pD: "preds g n \<subseteq> D"
    and ns: "nodes s = nodes g"
    by (auto simp: store_inv_def)
  from tb have t1: "path_weight g ?r = ?lw"
    and t2: "?r \<noteq> [] \<Longrightarrow> is_path g ?r \<and> has_edge g (last ?r) n"
    and t3: "\<And>p. is_path g p \<Longrightarrow> last p \<in> D \<Longrightarrow> has_edge g (last p) n \<Longrightarrow> path_weight g p \<le> ?lw"
    unfolding table_inv_def by blast+
  have nw: "new_weight_of s n = ?lw + weight_of g n"
    by (simp add: new_weight_of_def weight_of_def ns)
  show "is_path g (new_route_of s n)"
    unfolding new_route_of_def is_path_snoc using nd t2 by blast
  show "path_weight g (new_route_of s n) = new_weight_of s n"
    by (simp add: new_route_of_def path_weight_append t1 nw)
  fix p assume p: "is_path g p" and l: "last p = n"
  from fg have nonneg: "\<forall>l. 0 \<le> weight_of g l" by (simp add: fresh_graph_def)
  have lw0: "0 \<le> ?lw" using path_weight_nonneg [OF nonneg, of ?r] t1 by simp
  from is_path_split_last [OF p] l have pq: "p = butlast p @ [n]" by simp
  show "path_weight g p \<le> new_weight_of s n"
  proof (cases "butlast p = []")
    case True
    with pq have "p = [n]" by simp
    then show ?thesis using lw0 by (simp add: nw)
  next
    case False
    from p pq False have q: "is_path g (butlast p)" and e: "has_edge g (last (butlast p)) n"
      using is_path_snoc [of g "butlast p" n] by auto
    from e sync pD have "last (butlast p) \<in> D" by (auto simp: sync_preds)
    from t3 [OF q this e] have "path_weight g (butlast p) \<le> ?lw" .
    moreover have "path_weight g p = path_weight g (butlast p) + weight_of g n"
      using pq path_weight_append [of g "butlast p" "[n]"] by simp
    ultimately show ?thesis by (simp add: nw)
  qed
qed

section \<open>One iteration preserves the invariants\<close>

lemma has_edge_Some: "edges g a = Some T \<Longrightarrow> has_edge g a b \<longleftrightarrow> b \<in> T"
  by (simp add: has_edge_def)

lemma frontier_facts:
  assumes fg: "fresh_graph g" and sync: "views_sync g"
    and st: "store_inv g D s" and n: "n \<in> unseen_sources s"
  shows "\<exists>T. nodes s n = Some (weight_of g n) \<and> edges s n = Some T \<and>
    edges g n = Some T \<and> T \<subseteq> dom (rev_edges s) \<and> T \<subseteq> dom (nodes g) \<and>
    n \<notin> T \<and> n \<notin> D \<and> n \<in> dom (nodes g) \<and> preds g n \<subseteq> D \<and>
    (\<forall>t. n \<in> preds g t \<longleftrightarrow> t \<in> T)"
proof -
  from st n have nd: "n \<in> dom (nodes g)" and nD: "n \<notin> D" and pD: "preds g n \<subseteq> D"
    and ns: "nodes s = nodes g"
    by (auto simp: store_inv_def)
  from fg have k: "keys_ok g" and e: "endpoints_ok g"
    by (simp_all add: fresh_graph_def engine_inv_def)
  from nd k obtain T where T: "edges g n = Some T" by (auto simp: keys_ok_def)
  from st nD T have Ts: "edges s n = Some T" by (simp add: store_inv_def)
  from e T have Tn: "T \<subseteq> dom (nodes g)" by (auto simp: endpoints_ok_def)
  from st have "dom (rev_edges s) = dom (rev_edges g)"
    by (auto simp: store_inv_def)
  with Tn k have Tr: "T \<subseteq> dom (rev_edges s)" by (simp add: keys_ok_def)
  have pre: "n \<in> preds g t \<longleftrightarrow> t \<in> T" for t
    using sync_preds [OF sync, of n t] has_edge_Some [OF T] by simp
  from pre [of n] pD nD have nT: "n \<notin> T" by blast
  from nd obtain w where "nodes g n = Some w" by auto
  then have "nodes s n = Some (weight_of g n)"
    by (simp add: ns weight_of_def get0_def)
  with Ts T Tr Tn nT nD nd pD pre show ?thesis by blast
qed

lemma store_inv_terminal:
  assumes st: "store_inv g D s"
    and T: "edges g n = Some {}" and nD: "n \<notin> D" and nd: "n \<in> dom (nodes g)"
    and pD: "preds g n \<subseteq> D" and pre: "\<And>t. n \<notin> preds g t"
    and n': "nodes s' = nodes s" and e': "edges s' = edges s" and r': "rev_edges s' = rev_edges s"
    and u': "unseen_sources s' = unseen_sources s - {n}"
  shows "store_inv g (insert n D) s'"
proof -
  have p_eq: "preds g b \<subseteq> insert n D \<longleftrightarrow> preds g b \<subseteq> D" for b
    using pre [of b] by blast
  have "\<forall>a. edges s' a = (if a \<in> insert n D then map_option (\<lambda>T. {}) (edges g a) else edges g a)"
    using st T nD unfolding e' store_inv_def by auto
  moreover have "\<forall>b. rev_edges s' b = map_option (\<lambda>R. R - insert n D) (rev_edges g b)"
  proof
    fix b
    show "rev_edges s' b = map_option (\<lambda>R. R - insert n D) (rev_edges g b)"
    proof (cases "rev_edges g b")
      case None
      with st show ?thesis unfolding r' store_inv_def by simp
    next
      case (Some R)
      with pre [of b] have "n \<notin> R" by (simp add: preds_def)
      then have "R - insert n D = R - D" by blast
      with st Some show ?thesis unfolding r' store_inv_def by simp
    qed
  qed
  moreover have "unseen_sources s' = {b \<in> dom (nodes g). b \<notin> insert n D \<and> preds g b \<subseteq> insert n D}"
    using st unfolding u' store_inv_def p_eq by auto
  moreover have "\<forall>b. b \<in> insert n D \<longrightarrow> preds g b \<subseteq> insert n D"
    using st pD unfolding store_inv_def by blast
  moreover have "nodes s' = nodes g" "insert n D \<subseteq> dom (nodes g)"
    using st nd unfolding n' store_inv_def by auto
  ultimately show ?thesis unfolding store_inv_def by blast
qed

lemma table_inv_terminal:
  assumes tb: "table_inv g D s"
    and T: "edges g n = Some {}"
    and w': "longest_in_weight s' = longest_in_weight s"
    and r': "longest_in_route s' = longest_in_route s"
  shows "table_inv g (insert n D) s'"
proof -
  have ne: "\<not> has_edge g n t" for t using T by (simp add: has_edge_def)
  show ?thesis
    using tb ne unfolding table_inv_def w' r' by (metis insert_iff)
qed

lemma best_inv_terminal:
  assumes bs: "best_inv g D s"
    and f1: "is_path g nr" and f2: "path_weight g nr = nw"
    and f3: "\<And>p. is_path g p \<Longrightarrow> last p = n \<Longrightarrow> path_weight g p \<le> nw"
    and upd: "longest_route s = None \<or> (\<exists>b. longest_route_weight s = Some b \<and> b < nw)"
    and r': "longest_route s' = Some nr" and w': "longest_route_weight s' = Some nw"
  shows "best_inv g (insert n D) s'"
proof -
  from bs have ok: "best_ok s"
    and old: "\<And>p. is_path g p \<Longrightarrow> last p \<in> D \<Longrightarrow> edges g (last p) = Some {} \<Longrightarrow>
               \<exists>W. longest_route_weight s = Some W \<and> path_weight g p \<le> W"
    unfolding best_inv_def by blast+
  have "\<exists>W. longest_route_weight s' = Some W \<and> path_weight g p \<le> W"
    if p: "is_path g p" and l: "last p \<in> insert n D" and t: "edges g (last p) = Some {}" for p
  proof (cases "last p = n")
    case True
    from f3 [OF p True] show ?thesis by (simp add: w')
  next
    case False
    with l have "last p \<in> D" by simp
    from old [OF p this t] obtain W where W: "longest_route_weight s = Some W"
      and le: "path_weight g p \<le> W" by blast
    from upd W ok have "W < nw" by (auto simp: best_ok_def)
    with le show ?thesis by (simp add: w')
  qed
  then show ?thesis
    unfolding best_inv_def using f1 f2 by (simp add: r' w' best_ok_def)
qed

lemma best_inv_terminal_keep:
  assumes bs: "best_inv g D s"
    and f3: "\<And>p. is_path g p \<Longrightarrow> last p = n \<Longrightarrow> path_weight g p \<le> nw"
    and keep: "\<not> (longest_route s = None \<or> (\<exists>b. longest_route_weight s = Some b \<and> b < nw))"
    and r': "longest_route s' = longest_route s"
    and w': "longest_route_weight s' = longest_route_weight s"
  shows "best_inv g (insert n D) s'"
proof -
  from bs have ok: "best_ok s"
    and old: "\<And>p. is_path g p \<Longrightarrow> last p \<in> D \<Longrightarrow> edges g (last p) = Some {} \<Longrightarrow>
               \<exists>W. longest_route_weight s = Some W \<and> path_weight g p \<le> W"
    and rt: "\<forall>r. longest_route s = Some r \<longrightarrow>
               is_path g r \<and> longest_route_weight s = Some (path_weight g r)"
    unfolding best_inv_def by blast+
  from keep ok obtain b where b: "longest_route_weight s = Some b" and nb: "nw \<le> b"
    by (auto simp: best_ok_def)
  have "\<exists>W. longest_route_weight s' = Some W \<and> path_weight g p \<le> W"
    if p: "is_path g p" and l: "last p \<in> insert n D" and t: "edges g (last p) = Some {}" for p
  proof (cases "last p = n")
    case True
    from f3 [OF p True] nb show ?thesis by (simp add: w' b)
  next
    case False
    with l have "last p \<in> D" by simp
    from old [OF p this t] show ?thesis by (simp add: w')
  qed
  then show ?thesis
    unfolding best_inv_def using rt ok by (simp add: r' w' best_ok_def)
qed

lemma best_inv_inner:
  assumes bs: "best_inv g D s"
    and T: "edges g n = Some T" and ne: "T \<noteq> {}"
    and r': "longest_route s' = longest_route s"
    and w': "longest_route_weight s' = longest_route_weight s"
  shows "best_inv g (insert n D) s'"
proof -
  have "last p \<in> D" if "last p \<in> insert n D" and "edges g (last p) = Some {}" for p
    using that T ne by auto
  then show ?thesis
    using bs unfolding best_inv_def best_ok_def r' w' by blast
qed

lemma table_inv_inner:
  assumes tb: "table_inv g D s"
    and T: "edges g n = Some T"
    and f1: "is_path g nr" and f2: "path_weight g nr = nw" and f4: "last nr = n"
    and f3: "\<And>p. is_path g p \<Longrightarrow> last p = n \<Longrightarrow> path_weight g p \<le> nw"
    and w': "\<And>t. longest_in_weight s' t =
               (if t \<in> T \<and> get0 (longest_in_weight s) t < nw then Some nw
                else longest_in_weight s t)"
    and r': "\<And>t. longest_in_route s' t =
               (if t \<in> T \<and> get0 (longest_in_weight s) t < nw then Some nr
                else longest_in_route s t)"
  shows "table_inv g (insert n D) s'"
  unfolding table_inv_def
proof (intro allI)
  fix t
  let ?lw = "get0 (longest_in_weight s) t"
  let ?r = "get_nil (longest_in_route s) t"
  from tb have t1: "path_weight g ?r = ?lw"
    and t2: "?r \<noteq> [] \<Longrightarrow> is_path g ?r \<and> last ?r \<in> D \<and> has_edge g (last ?r) t"
    and t3: "\<And>p. is_path g p \<Longrightarrow> last p \<in> D \<Longrightarrow> has_edge g (last p) t \<Longrightarrow> path_weight g p \<le> ?lw"
    unfolding table_inv_def by blast+
  have nr_ne: "nr \<noteq> []" using f1 by (simp add: is_path_def)
  show "path_weight g (get_nil (longest_in_route s') t) = get0 (longest_in_weight s') t \<and>
        (get_nil (longest_in_route s') t \<noteq> [] \<longrightarrow>
           is_path g (get_nil (longest_in_route s') t) \<and>
           last (get_nil (longest_in_route s') t) \<in> insert n D \<and>
           has_edge g (last (get_nil (longest_in_route s') t)) t) \<and>
        (\<forall>p. is_path g p \<and> last p \<in> insert n D \<and> has_edge g (last p) t \<longrightarrow>
           path_weight g p \<le> get0 (longest_in_weight s') t)"
  proof (cases "t \<in> T \<and> ?lw < nw")
    case True
    then have "longest_in_weight s' t = Some nw"
      and "longest_in_route s' t = Some nr"
      using w' [of t] r' [of t] by (simp_all only: simp_thms if_True)
    then have gw: "get0 (longest_in_weight s') t = nw"
      and gr: "get_nil (longest_in_route s') t = nr"
      by (simp_all add: get0_def get_nil_def)
    have e: "has_edge g n t" using True T by (simp add: has_edge_def)
    have "path_weight g p \<le> nw"
      if p: "is_path g p" and l: "last p \<in> insert n D" and h: "has_edge g (last p) t" for p
    proof (cases "last p = n")
      case True
      from f3 [OF p True] show ?thesis .
    next
      case False
      with l have "last p \<in> D" by simp
      from t3 [OF p this h] \<open>t \<in> T \<and> ?lw < nw\<close> show ?thesis by simp
    qed
    then show ?thesis
      unfolding gw gr using f1 f2 f4 e by simp
  next
    case False
    then have "longest_in_weight s' t = longest_in_weight s t"
      and "longest_in_route s' t = longest_in_route s t"
      using w' [of t] r' [of t] by (simp_all only: simp_thms if_False)
    then have gw: "get0 (longest_in_weight s') t = ?lw"
      and gr: "get_nil (longest_in_route s') t = ?r"
      by (simp_all add: get0_def get_nil_def)
    have "path_weight g p \<le> ?lw"
      if p: "is_path g p" and l: "last p \<in> insert n D" and h: "has_edge g (last p) t" for p
    proof (cases "last p = n")
      case True
      with h T have "t \<in> T" by (simp add: has_edge_def)
      with False have "nw \<le> ?lw" by simp
      with f3 [OF p True] show ?thesis by simp
    next
      case False
      with l have "last p \<in> D" by simp
      from t3 [OF p this h] show ?thesis .
    qed
    then show ?thesis
      unfolding gw gr using t1 t2 by auto
  qed
qed

lemma store_inv_inner:
  assumes st: "store_inv g D s" and k: "keys_ok g"
    and T: "edges g n = Some T" and Tn: "T \<subseteq> dom (nodes g)"
    and nT: "n \<notin> T" and nD: "n \<notin> D" and nd: "n \<in> dom (nodes g)"
    and pD: "preds g n \<subseteq> D" and pre: "\<And>t. n \<in> preds g t \<longleftrightarrow> t \<in> T"
    and n': "nodes s' = nodes s" and e': "edges s' = (edges s)(n \<mapsto> {})"
    and r': "\<And>t. rev_edges s' t =
               (if t \<in> T then map_option (\<lambda>R. R - {n}) (rev_edges s t) else rev_edges s t)"
    and u': "unseen_sources s' =
               (unseen_sources s - {n}) \<union> {t \<in> T. \<exists>R. rev_edges s t = Some R \<and> R - {n} = {}}"
  shows "store_inv g (insert n D) s'"
proof -
  from st have sn: "nodes s = nodes g"
    and se: "\<And>a. edges s a = (if a \<in> D then map_option (\<lambda>T. {}) (edges g a) else edges g a)"
    and sr: "\<And>b. rev_edges s b = map_option (\<lambda>R. R - D) (rev_edges g b)"
    and sD: "D \<subseteq> dom (nodes g)"
    and su: "unseen_sources s = {b \<in> dom (nodes g). b \<notin> D \<and> preds g b \<subseteq> D}"
    and sc: "\<And>b. b \<in> D \<Longrightarrow> preds g b \<subseteq> D"
    unfolding store_inv_def by blast+
  have rg: "rev_edges g b = Some (preds g b)" if "b \<in> dom (nodes g)" for b
    using that k by (auto simp: keys_ok_def preds_def split: option.splits)
  have "edges s' a = (if a \<in> insert n D then map_option (\<lambda>T. {}) (edges g a) else edges g a)" for a
    unfolding e' using se [of a] T by simp
  moreover have "rev_edges s' b = map_option (\<lambda>R. R - insert n D) (rev_edges g b)" for b
  proof (cases "rev_edges g b")
    case None
    then show ?thesis unfolding r' sr by simp
  next
    case (Some R)
    then have R: "R = preds g b" by (simp add: preds_def)
    show ?thesis
    proof (cases "b \<in> T")
      case True
      have "R - D - {n} = R - insert n D" by blast
      then show ?thesis unfolding r' sr using True Some by simp
    next
      case False
      with pre [of b] R have "R - D = R - insert n D" by blast
      then show ?thesis unfolding r' sr using False Some by simp
    qed
  qed
  moreover have "unseen_sources s' =
      {b \<in> dom (nodes g). b \<notin> insert n D \<and> preds g b \<subseteq> insert n D}"
  proof -
    have new: "(\<exists>R. rev_edges s t = Some R \<and> R - {n} = {}) \<longleftrightarrow> preds g t \<subseteq> insert n D"
      if "t \<in> T" for t
    proof -
      from that Tn have "t \<in> dom (nodes g)" by blast
      from rg [OF this] have "rev_edges s t = Some (preds g t - D)" by (simp add: sr)
      then show ?thesis by auto
    qed
    have tD: "t \<notin> D" if "t \<in> T" for t
      using sc [of t] pre [of t] that nD by blast
    show ?thesis
    proof (intro set_eqI iffI)
      fix b assume b: "b \<in> unseen_sources s'"
      show "b \<in> {b \<in> dom (nodes g). b \<notin> insert n D \<and> preds g b \<subseteq> insert n D}"
      proof (cases "b \<in> T")
        case True
        with b new [OF True] tD [OF True] Tn nT show ?thesis
          unfolding u' su by auto
      next
        case False
        with b show ?thesis unfolding u' su by auto
      qed
    next
      fix b assume b: "b \<in> {b \<in> dom (nodes g). b \<notin> insert n D \<and> preds g b \<subseteq> insert n D}"
      show "b \<in> unseen_sources s'"
      proof (cases "b \<in> T")
        case True
        with b new [OF True] show ?thesis unfolding u' by simp
      next
        case False
        with pre [of b] have "n \<notin> preds g b" by simp
        with b have "preds g b \<subseteq> D" by blast
        with b show ?thesis unfolding u' su by simp
      qed
    qed
  qed
  moreover have "\<forall>b. b \<in> insert n D \<longrightarrow> preds g b \<subseteq> insert n D"
    using sc pD by blast
  moreover have "nodes s' = nodes g" "insert n D \<subseteq> dom (nodes g)"
    using sn sD nd unfolding n' by auto
  ultimately show ?thesis unfolding store_inv_def by blast
qed

lemma last_new_route [simp]: "last (new_route_of s n) = n"
  by (simp add: new_route_of_def)

lemma loop_body_step:
  assumes fg: "fresh_graph g" and sync: "views_sync g"
    and inv: "loop_inv g D s" and adm: "admissible s (n, ts)"
  shows "fst (loop_body n ts s) = None"
    and "n \<notin> D" and "n \<in> dom (nodes g)"
    and "loop_inv g (insert n D) (snd (loop_body n ts s))"
proof -
  from inv have st: "store_inv g D s" and tb: "table_inv g D s" and bs: "best_inv g D s"
    by (simp_all add: loop_inv_def)
  from adm have n: "n \<in> unseen_sources s" by (simp add: admissible_def)
  from fg have k: "keys_ok g" by (simp add: fresh_graph_def engine_inv_def)
  from bs have ok: "best_ok s" by (simp add: best_inv_def)
  note fin = finalized_is_longest [OF fg sync st tb n]
  obtain T where w: "nodes s n = Some (weight_of g n)" and Ts: "edges s n = Some T"
    and T: "edges g n = Some T" and Tr: "T \<subseteq> dom (rev_edges s)" and Tn: "T \<subseteq> dom (nodes g)"
    and nT: "n \<notin> T" and nD: "n \<notin> D" and nd: "n \<in> dom (nodes g)" and pD: "preds g n \<subseteq> D"
    and pre': "\<forall>t. n \<in> preds g t \<longleftrightarrow> t \<in> T"
    using frontier_facts [OF fg sync st n] by blast
  from pre' have pre: "n \<in> preds g t \<longleftrightarrow> t \<in> T" for t by simp
  let ?s' = "snd (loop_body n ts s)"
  show "n \<notin> D" by (rule nD)
  show "n \<in> dom (nodes g)" by (rule nd)
  have "fst (loop_body n ts s) = None \<and> loop_inv g (insert n D) ?s'"
  proof (cases "T = {}")
    case True
    with Ts T have Ts0: "edges s n = Some {}" and T0: "edges g n = Some {}" by simp_all
    note lb = loop_body_terminal [OF w Ts0 ok, of ts]
    have pre0: "n \<notin> preds g t" for t using pre [of t] True by simp
    have "store_inv g (insert n D) ?s'"
      by (rule store_inv_terminal [OF st T0 nD nd pD pre0]) (simp_all add: lb)
    moreover have "table_inv g (insert n D) ?s'"
      by (rule table_inv_terminal [OF tb T0]) (simp_all add: lb)
    moreover have "best_inv g (insert n D) ?s'"
    proof (cases "longest_route s = None \<or>
                  (\<exists>b. longest_route_weight s = Some b \<and> b < new_weight_of s n)")
      case True
      show ?thesis
        by (rule best_inv_terminal [OF bs fin(1) fin(2) fin(3) True]) (simp_all add: lb True)
    next
      case False
      show ?thesis
        by (rule best_inv_terminal_keep [OF bs fin(3) False]) (simp_all add: lb False)
    qed
    ultimately show ?thesis by (simp add: loop_inv_def lb)
  next
    case False
    from adm Ts have ts: "set ts = T" by (simp add: admissible_def)
    note lb = loop_body_inner [OF w Ts False ts Tr]
    have "store_inv g (insert n D) ?s'"
      by (rule store_inv_inner [OF st k T Tn nT nD nd pD pre lb(2) lb(3) lb(4) lb(5)])
    moreover have "table_inv g (insert n D) ?s'"
      by (rule table_inv_inner [OF tb T fin(1) fin(2) last_new_route fin(3) lb(6) lb(7)])
    moreover have "best_inv g (insert n D) ?s'"
      by (rule best_inv_inner [OF bs T False lb(8) lb(9)])
    ultimately show ?thesis by (simp add: loop_inv_def lb(1))
  qed
  then show "fst (loop_body n ts s) = None" and "loop_inv g (insert n D) ?s'"
    by simp_all
qed

section \<open>Runs of the loop\<close>

lemma fresh_rev_Some:
  assumes "fresh_graph g" and "b \<in> dom (nodes g)"
  shows "rev_edges g b = Some (preds g b)"
  using assms
  by (auto simp: fresh_graph_def engine_inv_def keys_ok_def preds_def split: option.splits)

lemma loop_inv_start:
  assumes fg: "fresh_graph g"
  shows "loop_inv g {} g"
proof -
  have "(rev_edges g b = Some {}) = (preds g b \<subseteq> {})" if "b \<in> dom (nodes g)" for b
    using fresh_rev_Some [OF fg that] by auto
  moreover from fg have "unseen_sources g = {l \<in> dom (nodes g). rev_edges g l = Some {}}"
    by (simp add: fresh_graph_def)
  ultimately have "unseen_sources g = {b \<in> dom (nodes g). b \<notin> {} \<and> preds g b \<subseteq> {}}"
    by auto
  moreover have "rev_edges g b = map_option (\<lambda>R. R - {}) (rev_edges g b)" for b
    by (cases "rev_edges g b") simp_all
  ultimately have "store_inv g {} g"
    unfolding store_inv_def by simp
  moreover have "table_inv g {} g"
    using fg by (simp add: table_inv_def fresh_graph_def get0_def get_nil_def)
  moreover have "best_inv g {} g"
    using fg by (simp add: best_inv_def fresh_graph_def best_ok_def)
  ultimately show ?thesis by (simp add: loop_inv_def)
qed

lemma iterate_inv:
  assumes fg: "fresh_graph g" and sync: "views_sync g"
  shows "loop_inv g D s \<Longrightarrow> iterate cs s = Some (e, s') \<Longrightarrow>
         e = None \<and> loop_inv g (D \<union> set (map fst cs)) s' \<and> distinct (map fst cs) \<and>
         set (map fst cs) \<inter> D = {} \<and> set (map fst cs) \<subseteq> dom (nodes g)"
proof (induction cs arbitrary: D s)
  case Nil
  then show ?case by simp
next
  case (Cons c cs)
  obtain n ts where c: "c = (n, ts)" by (cases c)
  from Cons.prems(2) have adm: "admissible s (n, ts)"
    by (simp add: c split: if_splits)
  note step = loop_body_step [OF fg sync Cons.prems(1) adm]
  obtain s1 where b: "loop_body n ts s = (None, s1)"
    using step(1) by (cases "loop_body n ts s") simp
  with step(4) have inv1: "loop_inv g (insert n D) s1" by simp
  from Cons.prems(2) adm b have run: "iterate cs s1 = Some (e, s')"
    by (simp add: c)
  from Cons.IH [OF inv1 run] step(2,3) show ?case
    by (auto simp: c)
qed

lemma has_edge_source_node:
  assumes "fresh_graph g" and "has_edge g a b"
  shows "a \<in> dom (nodes g)"
  using assms
  by (auto simp: fresh_graph_def engine_inv_def keys_ok_def has_edge_def split: option.splits)

lemma has_edge_target_node:
  assumes "fresh_graph g" and "has_edge g a b"
  shows "b \<in> dom (nodes g)"
  using assms
  by (auto simp: fresh_graph_def engine_inv_def endpoints_ok_def has_edge_def split: option.splits)

lemma fresh_edges_Some:
  assumes "fresh_graph g" and "a \<in> dom (nodes g)"
  shows "\<exists>T. edges g a = Some T"
proof -
  from assms(1) have "dom (edges g) = dom (nodes g)"
    by (simp add: fresh_graph_def engine_inv_def keys_ok_def)
  with assms(2) have "a \<in> dom (edges g)" by simp
  then show ?thesis by blast
qed

lemma edge_rel_finite:
  assumes fg: "fresh_graph g"
  shows "finite (edge_rel g)"
proof -
  from fg have f: "finite (dom (nodes g))"
    by (simp add: fresh_graph_def)
  have "edge_rel g \<subseteq> dom (nodes g) \<times> dom (nodes g)"
    using has_edge_source_node [OF fg] has_edge_target_node [OF fg]
    unfolding edge_rel_def by blast
  with f show ?thesis by (meson finite_SigmaI finite_subset)
qed

text \<open>On an acyclic graph an empty frontier means that every node has been finalized.\<close>

lemma frontier_empty_all_done:
  assumes fg: "fresh_graph g" and sync: "views_sync g" and acyc: "acyclic (edge_rel g)"
    and st: "store_inv g D s" and emp: "unseen_sources s = {}"
  shows "D = dom (nodes g)"
proof (rule ccontr)
  assume "D \<noteq> dom (nodes g)"
  with st obtain x where x: "x \<in> dom (nodes g) - D"
    by (auto simp: store_inv_def)
  have "wf (edge_rel g)"
    by (rule finite_acyclic_wf [OF edge_rel_finite [OF fg] acyc])
  from wfE_min [OF this x] obtain z where z: "z \<in> dom (nodes g) - D"
    and min: "\<And>y. (y, z) \<in> edge_rel g \<Longrightarrow> y \<notin> dom (nodes g) - D"
    by blast
  have "preds g z \<subseteq> D"
  proof
    fix y assume "y \<in> preds g z"
    with sync have h: "has_edge g y z" by (simp add: sync_preds)
    then have "(y, z) \<in> edge_rel g" by (simp add: edge_rel_def)
    from min [OF this] has_edge_source_node [OF fg h] show "y \<in> D" by simp
  qed
  with z st have "z \<in> unseen_sources s" by (simp add: store_inv_def)
  with emp show False by simp
qed

text \<open>Every path can be prolonged to a terminal node, and prolonging never loses weight.\<close>

lemma path_bounded_by_terminal:
  assumes fg: "fresh_graph g" and acyc: "acyclic (edge_rel g)"
    and trm: "\<And>p. is_path g p \<Longrightarrow> edges g (last p) = Some {} \<Longrightarrow> path_weight g p \<le> W"
  shows "is_path g p \<Longrightarrow> path_weight g p \<le> W"
proof -
  have wf: "wf ((edge_rel g)\<inverse>)"
    by (rule finite_acyclic_wf_converse [OF edge_rel_finite [OF fg] acyc])
  have "\<forall>p. is_path g p \<and> last p = a \<longrightarrow> path_weight g p \<le> W" for a
    using wf
  proof (induction a rule: wf_induct_rule)
    case (less a)
    show ?case
    proof (intro allI impI)
      fix p assume p: "is_path g p \<and> last p = a"
      then have "a \<in> dom (nodes g)" using is_path_last_node [of g p] by simp
      from fresh_edges_Some [OF fg this] obtain T where T: "edges g a = Some T" ..
      show "path_weight g p \<le> W"
      proof (cases "T = {}")
        case True
        with T p trm [of p] show ?thesis by simp
      next
        case False
        then obtain b where b: "b \<in> T" by blast
        with T have h: "has_edge g a b" by (simp add: has_edge_def)
        then have "(b, a) \<in> (edge_rel g)\<inverse>" by (simp add: edge_rel_def)
        moreover have "is_path g (p @ [b])"
          using p h has_edge_target_node [OF fg h] by (simp add: is_path_snoc)
        ultimately have "path_weight g (p @ [b]) \<le> W" using less.IH by simp
        moreover from fg have "0 \<le> weight_of g b" by (simp add: fresh_graph_def)
        ultimately show ?thesis by (simp add: path_weight_append)
      qed
    qed
  qed
  then show "is_path g p \<Longrightarrow> path_weight g p \<le> W" by blast
qed

section \<open>Construction yields a traversable state\<close>

lemma fresh_graph_init: "fresh_graph init"
  using engine_inv_init
  by (simp add: fresh_graph_def init_def weight_of_def get0_def)

lemma fresh_graph_add_node:
  assumes "fresh_graph s"
  shows "fresh_graph (snd (add_node l w s))"
proof (cases "w < 0")
  case True
  with assms show ?thesis by (simp add: add_node_def)
next
  case False
  let ?s' = "snd (add_node l w s)"
  from assms have inv: "engine_inv ?s'"
    by (simp add: fresh_graph_def engine_inv_def keys_ok_add_node endpoints_ok_add_node
        best_ok_add_node)
  have fields: "nodes ?s' = (nodes s)(l \<mapsto> w)" "rev_edges ?s' = (rev_edges s)(l \<mapsto> {})"
    "unseen_sources ?s' = insert l (unseen_sources s)"
    "longest_in_weight ?s' = longest_in_weight s" "longest_in_route ?s' = longest_in_route s"
    "longest_route ?s' = longest_route s" "longest_route_weight ?s' = longest_route_weight s"
    using False by (simp_all add: add_node_def)
  have "0 \<le> weight_of ?s' x" for x
    using assms False unfolding fresh_graph_def weight_of_def get0_def fields
    by (auto split: option.splits)
  moreover have "unseen_sources ?s' = {x \<in> dom (nodes ?s'). rev_edges ?s' x = Some {}}"
    using assms unfolding fresh_graph_def fields by auto
  ultimately show ?thesis
    using assms inv unfolding fresh_graph_def fields(1,4-7) by simp
qed

lemma fresh_graph_add_edge:
  assumes "fresh_graph s"
  shows "fresh_graph (snd (add_edge a b s))"
proof (cases "a \<in> dom (nodes s) \<and> b \<in> dom (nodes s)")
  case False
  with assms show ?thesis by (auto simp: add_edge_def)
next
  case True
  let ?s' = "snd (add_edge a b s)"
  from assms have inv: "engine_inv ?s'"
    by (simp add: fresh_graph_def engine_inv_def keys_ok_add_edge endpoints_ok_add_edge
        best_ok_add_edge)
  from True fresh_edges_Some [OF assms] obtain T where T: "edges s a = Some T" by blast
  from True fresh_rev_Some [OF assms] have R: "rev_edges s b = Some (preds s b)" by blast
  have fields: "nodes ?s' = nodes s" "rev_edges ?s' = (rev_edges s)(b \<mapsto> insert a (preds s b))"
    "unseen_sources ?s' = unseen_sources s - {b}"
    "longest_in_weight ?s' = longest_in_weight s" "longest_in_route ?s' = longest_in_route s"
    "longest_route ?s' = longest_route s" "longest_route_weight ?s' = longest_route_weight s"
    using True T R by (simp_all add: add_edge_def Let_def)
  have "unseen_sources ?s' = {x \<in> dom (nodes ?s'). rev_edges ?s' x = Some {}}"
    using assms unfolding fresh_graph_def fields by auto
  then show ?thesis
    using assms inv unfolding fresh_graph_def fields(1,4-7) weight_of_def by simp
qed

lemma build_fresh: "fresh_graph s \<Longrightarrow> fresh_graph (snd (build calls s))"
proof (induction calls arbitrary: s)
  case Nil
  then show ?case by simp
next
  case (Cons c cs)
  have f1: "fresh_graph (snd (apply_call c s))"
    using Cons.prems fresh_graph_add_node fresh_graph_add_edge by (cases c) simp_all
  obtain e s1 where a: "apply_call c s = (e, s1)" by (cases "apply_call c s")
  show ?case
  proof (cases e)
    case None
    with a f1 Cons.IH [of s1] show ?thesis by simp
  next
    case (Some x)
    with a f1 show ?thesis by simp
  qed
qed

lemma build_engine_state: "engine_state s \<Longrightarrow> engine_state (snd (build calls s))"
proof (induction calls arbitrary: s)
  case Nil
  then show ?case by simp
next
  case (Cons c cs)
  have f1: "engine_state (snd (apply_call c s))"
    using Cons.prems es_add_node es_add_edge by (cases c) simp_all
  obtain e s1 where a: "apply_call c s = (e, s1)" by (cases "apply_call c s")
  show ?case
  proof (cases e)
    case None
    with a f1 Cons.IH [of s1] show ?thesis by simp
  next
    case (Some x)
    with a f1 show ?thesis by simp
  qed
qed

text \<open>From every state the loop can reach, some sequence of choices empties the frontier.\<close>

lemma exists_run:
  assumes fg: "fresh_graph g" and sync: "views_sync g"
  shows "loop_inv g D s \<Longrightarrow>
         \<exists>cs s'. iterate cs s = Some (None, s') \<and> unseen_sources s' = {}"
proof (induction "card (dom (nodes g) - D)" arbitrary: D s rule: less_induct)
  case less
  show ?case
  proof (cases "unseen_sources s = {}")
    case True
    then have "iterate [] s = Some (None, s) \<and> unseen_sources s = {}" by simp
    then show ?thesis by blast
  next
    case False
    then obtain n where n: "n \<in> unseen_sources s" by blast
    from less.prems have st: "store_inv g D s" by (simp add: loop_inv_def)
    from frontier_facts [OF fg sync st n] obtain T where Ts: "edges s n = Some T"
      and Tn: "T \<subseteq> dom (nodes g)" by blast
    from fg have fin: "finite (dom (nodes g))" by (simp add: fresh_graph_def)
    with Tn have "finite T" by (rule finite_subset)
    from finite_distinct_list [OF this] obtain ts where ts: "set ts = T" "distinct ts" by blast
    with n Ts have adm: "admissible s (n, ts)" by (simp add: admissible_def)
    note step = loop_body_step [OF fg sync less.prems adm]
    obtain s1 where b: "loop_body n ts s = (None, s1)"
      using step(1) by (cases "loop_body n ts s") simp
    with step(4) have inv1: "loop_inv g (insert n D) s1" by simp
    have "dom (nodes g) - insert n D \<subset> dom (nodes g) - D"
      using step(2,3) by blast
    with fin have "card (dom (nodes g) - insert n D) < card (dom (nodes g) - D)"
      by (simp add: psubset_card_mono)
    from less.hyps [OF this inv1] obtain cs s' where
      run: "iterate cs s1 = Some (None, s')" and emp: "unseen_sources s' = {}" by blast
    from adm b run have "iterate ((n, ts) # cs) s = Some (None, s')" by simp
    with emp show ?thesis by blast
  qed
qed

section \<open>What a completed run has computed\<close>

lemma run_result:
  assumes fg: "fresh_graph g" and sync: "views_sync g" and acyc: "acyclic (edge_rel g)"
    and run: "longest_path cs g = Some (r, s')"
  shows "r = Inr (longest_route s', longest_route_weight s')"
    and "iterate cs g = Some (None, s')"
    and "unseen_sources s' = {}"
    and "loop_inv g (dom (nodes g)) s'"
    and "distinct (map fst cs)"
    and "set (map fst cs) = dom (nodes g)"
proof -
  from run obtain e where it: "iterate cs g = Some (e, s')"
    by (auto simp: longest_path_def split: option.splits if_splits)
  from iterate_inv [OF fg sync loop_inv_start [OF fg] it]
  have e: "e = None" and inv: "loop_inv g (set (map fst cs)) s'"
    and d: "distinct (map fst cs)" by simp_all
  from it e show it': "iterate cs g = Some (None, s')" by simp
  from run it' show emp: "unseen_sources s' = {}"
    by (simp add: longest_path_def split: if_splits)
  from run it' emp show "r = Inr (longest_route s', longest_route_weight s')"
    by (simp add: longest_path_def)
  from inv have "store_inv g (set (map fst cs)) s'" by (simp add: loop_inv_def)
  from frontier_empty_all_done [OF fg sync acyc this emp]
  show all: "set (map fst cs) = dom (nodes g)" .
  from inv all show "loop_inv g (dom (nodes g)) s'" by simp
  show "distinct (map fst cs)" by (rule d)
qed

lemma terminal_exists:
  assumes fg: "fresh_graph g" and acyc: "acyclic (edge_rel g)" and x: "x \<in> dom (nodes g)"
  shows "\<exists>z \<in> dom (nodes g). edges g z = Some {}"
proof -
  have "wf ((edge_rel g)\<inverse>)"
    by (rule finite_acyclic_wf_converse [OF edge_rel_finite [OF fg] acyc])
  from wfE_min [OF this x] obtain z where z: "z \<in> dom (nodes g)"
    and min: "\<And>y. (y, z) \<in> (edge_rel g)\<inverse> \<Longrightarrow> y \<notin> dom (nodes g)" by blast
  from fresh_edges_Some [OF fg z] obtain T where T: "edges g z = Some T" ..
  have "T = {}"
  proof (rule ccontr)
    assume "T \<noteq> {}"
    then obtain y where "y \<in> T" by blast
    with T have h: "has_edge g z y" by (simp add: has_edge_def)
    then have "(y, z) \<in> (edge_rel g)\<inverse>" by (simp add: edge_rel_def)
    from min [OF this] has_edge_target_node [OF fg h] show False by simp
  qed
  with T z show ?thesis by blast
qed

lemma final_best:
  assumes fg: "fresh_graph g" and acyc: "acyclic (edge_rel g)"
    and inv: "loop_inv g (dom (nodes g)) s'"
  shows "\<And>r. longest_route s' = Some r \<Longrightarrow>
            is_path g r \<and> longest_route_weight s' = Some (path_weight g r)"
    and "dom (nodes g) \<noteq> {} \<Longrightarrow>
           \<exists>r. longest_route s' = Some r \<and> (\<forall>p. is_path g p \<longrightarrow> path_weight g p \<le> path_weight g r)"
    and "best_ok s'"
proof -
  from inv have bs: "best_inv g (dom (nodes g)) s'" by (simp add: loop_inv_def)
  then show ok: "best_ok s'" by (simp add: best_inv_def)
  from bs show rt: "\<And>r. longest_route s' = Some r \<Longrightarrow>
            is_path g r \<and> longest_route_weight s' = Some (path_weight g r)"
    by (simp add: best_inv_def)
  from bs have tm: "\<And>p. is_path g p \<Longrightarrow> edges g (last p) = Some {} \<Longrightarrow>
      \<exists>W. longest_route_weight s' = Some W \<and> path_weight g p \<le> W"
    using is_path_last_node unfolding best_inv_def by blast
  assume "dom (nodes g) \<noteq> {}"
  then obtain x where "x \<in> dom (nodes g)" by blast
  from terminal_exists [OF fg acyc this] obtain z where z: "z \<in> dom (nodes g)"
    and zt: "edges g z = Some {}" by blast
  from z have "is_path g [z]" by (simp add: is_path_single)
  from tm [OF this] zt obtain W where W: "longest_route_weight s' = Some W" by auto
  with ok obtain r where r: "longest_route s' = Some r" by (auto simp: best_ok_def)
  from rt [OF r] W have Wr: "W = path_weight g r" by simp
  have "path_weight g p \<le> W" if "is_path g p" for p
  proof (rule path_bounded_by_terminal [OF fg acyc _ that])
    fix q assume "is_path g q" and "edges g (last q) = Some {}"
    from tm [OF this] W show "path_weight g q \<le> W" by simp
  qed
  with r Wr show "\<exists>r. longest_route s' = Some r \<and>
      (\<forall>p. is_path g p \<longrightarrow> path_weight g p \<le> path_weight g r)" by blast
qed

lemma max_path_weight_eq:
  assumes fg: "fresh_graph g" and r: "is_path g r"
    and ub: "\<forall>p. is_path g p \<longrightarrow> path_weight g p \<le> path_weight g r"
  shows "max_path_weight g = Some (path_weight g r)"
proof -
  let ?S = "path_weight g ` {p. is_path g p}"
  from fg have nonneg: "\<forall>l. 0 \<le> weight_of g l" by (simp add: fresh_graph_def)
  have "?S \<subseteq> {0 .. path_weight g r}"
    using ub path_weight_nonneg [OF nonneg] by auto
  then have "finite ?S" by (rule finite_subset) simp
  moreover have "path_weight g r \<in> ?S" using r by blast
  moreover have "\<And>y. y \<in> ?S \<Longrightarrow> y \<le> path_weight g r" using ub by auto
  ultimately have "Max ?S = path_weight g r" by (intro Max_eqI)
  with r show ?thesis unfolding max_path_weight_def by auto
qed

lemma no_nodes_no_path: "dom (nodes g) = {} \<Longrightarrow> \<not> is_path g p"
  by (cases p) (auto simp: is_path_def)

lemma run_weight:
  assumes fg: "fresh_graph g" and sync: "views_sync g" and acyc: "acyclic (edge_rel g)"
    and run: "longest_path cs g = Some (r, s')"
  shows "\<exists>route. r = Inr (route, max_path_weight g)"
proof (cases "dom (nodes g) = {}")
  case True
  note rr = run_result [OF fg sync acyc run]
  from rr(6) True have "cs = []" by simp
  with rr(2) have "s' = g" by simp
  with fg have "longest_route_weight s' = None" by (simp add: fresh_graph_def)
  moreover have "max_path_weight g = None"
    using no_nodes_no_path [OF True] by (simp add: max_path_weight_def)
  ultimately show ?thesis using rr(1) by simp
next
  case False
  note rr = run_result [OF fg sync acyc run]
  note fb = final_best [OF fg acyc rr(4)]
  from fb(2) [OF False] obtain rt where rt: "longest_route s' = Some rt"
    and ub: "\<forall>p. is_path g p \<longrightarrow> path_weight g p \<le> path_weight g rt" by blast
  from fb(1) [OF rt] have p: "is_path g rt"
    and w: "longest_route_weight s' = Some (path_weight g rt)" by simp_all
  from max_path_weight_eq [OF fg p ub] w rr(1) show ?thesis by simp
qed

section \<open>Write-once construction, and two concrete graphs\<close>

lemma add_node_dom: "dom (nodes (snd (add_node l w s))) \<subseteq> insert l (dom (nodes s))"
  by (auto simp: add_node_def)

lemma add_edge_nodes [simp]: "nodes (snd (add_edge a b s)) = nodes s"
  by (simp add: add_edge_def Let_def split: option.splits)

lemma engine_inv_add_node: "engine_inv s \<Longrightarrow> engine_inv (snd (add_node l w s))"
  by (simp add: engine_inv_def keys_ok_add_node endpoints_ok_add_node best_ok_add_node)

lemma engine_inv_add_edge: "engine_inv s \<Longrightarrow> engine_inv (snd (add_edge a b s))"
  by (simp add: engine_inv_def keys_ok_add_edge endpoints_ok_add_edge best_ok_add_edge)

lemma build_write_once_sync:
  "engine_inv s \<Longrightarrow> views_sync s \<Longrightarrow> distinct (added_labels cs) \<Longrightarrow>
   set (added_labels cs) \<inter> dom (nodes s) = {} \<Longrightarrow> views_sync (snd (build cs s))"
proof (induction cs arbitrary: s)
  case Nil
  then show ?case by simp
next
  case (Cons c cs)
  obtain e s1 where a: "apply_call c s = (e, s1)" by (cases "apply_call c s")
  have s1: "engine_inv s1 \<and> views_sync s1 \<and> set (added_labels cs) \<inter> dom (nodes s1) = {}"
  proof (cases c)
    case (AddNode l w)
    with a have s1: "s1 = snd (add_node l w s)" by simp
    from Cons.prems(3,4) AddNode have l: "l \<notin> dom (nodes s)" "l \<notin> set (added_labels cs)"
      "set (added_labels cs) \<inter> dom (nodes s) = {}" by auto
    from views_sync_add_node [OF Cons.prems(2) unregistered_isolated [OF Cons.prems(1) l(1)]]
    have "views_sync s1" by (simp add: s1)
    moreover have "engine_inv s1" using Cons.prems(1) by (simp add: s1 engine_inv_add_node)
    moreover have "set (added_labels cs) \<inter> dom (nodes s1) = {}"
      using add_node_dom [of l w s] l(2,3) unfolding s1 by blast
    ultimately show ?thesis by simp
  next
    case (AddEdge x y)
    with a have s1: "s1 = snd (add_edge x y s)" by simp
    from Cons.prems(1) have "keys_ok s" by (simp add: engine_inv_def)
    from views_sync_add_edge [OF this Cons.prems(2)] have "views_sync s1" by (simp add: s1)
    moreover have "engine_inv s1" using Cons.prems(1) by (simp add: s1 engine_inv_add_edge)
    moreover have "set (added_labels cs) \<inter> dom (nodes s1) = {}"
      using Cons.prems(4) AddEdge by (simp add: s1)
    ultimately show ?thesis by simp
  qed
  have d: "distinct (added_labels cs)" using Cons.prems(3) by (cases c) simp_all
  show ?case
  proof (cases e)
    case None
    with a s1 d Cons.IH [of s1] show ?thesis by simp
  next
    case (Some x)
    with a s1 show ?thesis by simp
  qed
qed

lemma views_sync_init: "views_sync init"
  by (simp add: views_sync_def has_edge_def has_rev_edge_def init_def)

lemma write_once_sync: "write_once cs \<Longrightarrow> views_sync (snd (build cs init))"
  using build_write_once_sync [OF engine_inv_init views_sync_init, of cs]
  by (simp add: write_once_def init_def)

lemma built_fresh: "build calls init = (e, g) \<Longrightarrow> fresh_graph g"
  using build_fresh [OF fresh_graph_init, of calls] by simp

lemma acyclic_increasing:
  fixes g :: "('l::wellorder) dag"
  assumes "\<And>a b. has_edge g a b \<Longrightarrow> a < b"
  shows "acyclic (edge_rel g)"
proof -
  have "edge_rel g \<subseteq> {(a, b). a < b}" using assms by (auto simp: edge_rel_def)
  moreover have "acyclic {(a, b). (a::'l) < b}" by (rule wf_acyclic [OF wf])
  ultimately show ?thesis by (rule acyclic_subset [rotated])
qed

lemma fork_built: "build fork_calls init = (None, fork)"
  by (simp add: fork_def fork_calls_def add_node_def add_edge_def init_def)

lemma fork_edges: "has_edge fork a b \<longleftrightarrow> (a = 0 \<or> a = 1) \<and> b = 2"
  by (auto simp: fork_def fork_calls_def add_node_def add_edge_def init_def has_edge_def
      split: if_splits)

lemma fork_acyclic: "acyclic (edge_rel fork)"
  by (rule acyclic_increasing) (auto simp: fork_edges)

lemma fork_run_a:
  "map_option fst (longest_path [(0, [2]), (1, [2]), (2, [])] fork) = Some (Inr (Some [0, 2], Some 2))"
  by (simp add: fork_def fork_calls_def longest_path_def admissible_def loop_body_def
      del_edges_from_def add_node_def add_edge_def init_def get0_def get_nil_def Let_def insert_Diff_if)

lemma fork_run_b:
  "map_option fst (longest_path [(1, [2]), (0, [2]), (2, [])] fork) = Some (Inr (Some [1, 2], Some 2))"
  by (simp add: fork_def fork_calls_def longest_path_def admissible_def loop_body_def
      del_edges_from_def add_node_def add_edge_def init_def get0_def get_nil_def Let_def insert_Diff_if)


lemma iterate_append:
  "iterate cs s = Some (None, s1) \<Longrightarrow> iterate (cs @ cs') s = iterate cs' s1"
proof (induction cs arbitrary: s)
  case Nil
  then show ?case by simp
next
  case (Cons c cs)
  then show ?case
    by (cases "loop_body (fst c) (snd c) s") (auto split: if_splits option.splits)
qed

lemma run_option:
  assumes "map_option fst (longest_path cs g) = Some r"
  obtains s' where "longest_path cs g = Some (r, s')"
  using assms by (cases "longest_path cs g") auto

lemma fork_engine_state: "engine_state fork"
  unfolding fork_def by (rule build_engine_state [OF es_init])

lemma two_equal_engine_state: "engine_state two_equal"
proof -
  let ?g = "snd (build [AddNode (0::nat) 4, AddNode 1 4, AddNode 2 5] init)"
  have "engine_state ?g" by (rule build_engine_state [OF es_init])
  moreover have "admissible ?g (0, [])"
    by (simp add: admissible_def add_node_def init_def)
  ultimately show ?thesis unfolding two_equal_def by (rule es_pop)
qed

lemma two_equal_fields:
  "longest_route two_equal = Some [0]" "longest_route_weight two_equal = Some 4"
  "edges two_equal 1 = Some {}" "edges two_equal 2 = Some {}"
  "admissible two_equal (1, [])" "admissible two_equal (2, [])"
  "new_weight_of two_equal 1 = 4" "new_weight_of two_equal 2 = 5"
  "new_route_of two_equal 2 = [2]"
  by (simp_all add: two_equal_def loop_body_def add_node_def init_def get0_def get_nil_def
      admissible_def new_weight_of_def new_route_of_def)

section \<open>Routes are paths in every constructed state\<close>

lemma route_inv_start: "fresh_graph g \<Longrightarrow> route_inv g g"
  by (auto simp: route_inv_def fresh_graph_def get0_def get_nil_def)

lemma route_inv_step:
  assumes inv: "route_inv g s" and adm: "admissible s (n, ts)"
  shows "fst (loop_body n ts s) = None \<and> route_inv g (snd (loop_body n ts s))"
proof -
  let ?s' = "snd (loop_body n ts s)"
  let ?nr = "new_route_of s n" and ?nw = "new_weight_of s n"
  from inv have ns: "nodes s = nodes g" and ei: "engine_inv s"
    and us: "unseen_sources s \<subseteq> dom (nodes g)"
    and es: "\<And>a b. has_edge s a b \<Longrightarrow> has_edge g a b"
    and tb: "\<And>t. path_weight g (get_nil (longest_in_route s) t) = get0 (longest_in_weight s) t"
      "\<And>t. get_nil (longest_in_route s) t \<noteq> [] \<Longrightarrow>
          is_path g (get_nil (longest_in_route s) t) \<and>
          has_edge g (last (get_nil (longest_in_route s) t)) t"
    and bs: "\<And>r. longest_route s = Some r \<Longrightarrow>
          is_path g r \<and> longest_route_weight s = Some (path_weight g r)"
    unfolding route_inv_def by blast+
  from ei have k: "keys_ok s" and ep: "endpoints_ok s" and ok: "best_ok s"
    by (simp_all add: engine_inv_def)
  have ei': "engine_inv ?s'" by (rule loop_body_engine_inv [OF ei adm])
  from adm us have nd: "n \<in> dom (nodes g)" by (auto simp: admissible_def)
  then obtain w where w: "nodes s n = Some w" by (auto simp: ns)
  from nd ns k have "n \<in> dom (edges s)" by (simp add: keys_ok_def)
  then obtain T where T: "edges s n = Some T" by blast
  have nrp: "is_path g ?nr"
    unfolding new_route_of_def is_path_snoc using nd tb(2) [of n] by blast
  have nrw: "path_weight g ?nr = ?nw"
    using w by (simp add: new_route_of_def new_weight_of_def path_weight_append tb(1)
        weight_of_def ns get0_def)
  show ?thesis
  proof (cases "T = {}")
    case True
    with T have T0: "edges s n = Some {}" by simp
    note lb = loop_body_terminal [OF w T0 ok, of ts]
    have "route_inv g ?s'"
      unfolding route_inv_def
      using ns ei' us es tb bs nrp nrw
      by (auto simp: lb has_edge_def)
    then show ?thesis by (simp add: lb)
  next
    case False
    from adm T have ts: "set ts = T" by (simp add: admissible_def)
    from ep T have Tn: "T \<subseteq> dom (nodes s)" by (simp add: endpoints_ok_def)
    with k have Tr: "T \<subseteq> dom (rev_edges s)" by (simp add: keys_ok_def)
    note lb = loop_body_inner [OF w T False ts Tr]
    have e': "has_edge g a b" if "has_edge ?s' a b" for a b
      using that es [of a b] unfolding has_edge_def lb(3) by (auto split: if_splits)
    have u': "unseen_sources ?s' \<subseteq> dom (nodes g)"
      unfolding lb(5) using us Tn ns by auto
    have t': "path_weight g (get_nil (longest_in_route ?s') t) = get0 (longest_in_weight ?s') t \<and>
           (get_nil (longest_in_route ?s') t \<noteq> [] \<longrightarrow>
              is_path g (get_nil (longest_in_route ?s') t) \<and>
              has_edge g (last (get_nil (longest_in_route ?s') t)) t)" for t
    proof (cases "t \<in> T \<and> get0 (longest_in_weight s) t < ?nw")
      case True
      then have "longest_in_weight ?s' t = Some ?nw" and "longest_in_route ?s' t = Some ?nr"
        using lb(6) [of t] lb(7) [of t] by (simp_all only: simp_thms if_True)
      then have gw: "get0 (longest_in_weight ?s') t = ?nw"
        and gr: "get_nil (longest_in_route ?s') t = ?nr"
        by (simp_all add: get0_def get_nil_def)
      from True T have "has_edge s n t" by (simp add: has_edge_def)
      from es [OF this] nrp nrw show ?thesis unfolding gw gr by simp
    next
      case False
      then have "longest_in_weight ?s' t = longest_in_weight s t"
        and "longest_in_route ?s' t = longest_in_route s t"
        using lb(6) [of t] lb(7) [of t] by (simp_all only: simp_thms if_False)
      then have gw: "get0 (longest_in_weight ?s') t = get0 (longest_in_weight s) t"
        and gr: "get_nil (longest_in_route ?s') t = get_nil (longest_in_route s) t"
        by (simp_all add: get0_def get_nil_def)
      show ?thesis unfolding gw gr using tb(1) [of t] tb(2) [of t] by blast
    qed
    have "route_inv g ?s'"
      unfolding route_inv_def lb(2) lb(8) lb(9)
      using ns ei' u' e' t' bs by blast
    then show ?thesis by (simp add: lb(1))
  qed
qed

lemma route_inv_iterate:
  "route_inv g s \<Longrightarrow> iterate cs s = Some (e, s') \<Longrightarrow> e = None \<and> route_inv g s'"
proof (induction cs arbitrary: s)
  case Nil
  then show ?case by simp
next
  case (Cons c cs)
  obtain n ts where c: "c = (n, ts)" by (cases c)
  from Cons.prems(2) have adm: "admissible s (n, ts)"
    by (simp add: c split: if_splits)
  from route_inv_step [OF Cons.prems(1) adm] obtain s1 where
    b: "loop_body n ts s = (None, s1)" and inv1: "route_inv g s1"
    by (cases "loop_body n ts s") auto
  from Cons.prems(2) adm b have "iterate cs s1 = Some (e, s')" by (simp add: c)
  from Cons.IH [OF inv1 this] show ?case .
qed

text \<open>
  The order in which the two \<open>for\<close> loops visit the successor set has no effect on the
  state an iteration leaves.
\<close>

lemma loop_body_order_irrelevant:
  assumes ei: "engine_inv s" and a1: "admissible s (n, ts)" and a2: "admissible s (n, ts')"
  shows "loop_body n ts s = loop_body n ts' s"
proof (cases "nodes s n")
  case None
  then show ?thesis by (simp add: loop_body_def)
next
  case (Some w)
  from ei have k: "keys_ok s" and ep: "endpoints_ok s" and ok: "best_ok s"
    by (simp_all add: engine_inv_def)
  from Some k have "n \<in> dom (edges s)" by (auto simp: keys_ok_def)
  then obtain T where T: "edges s n = Some T" by blast
  show ?thesis
  proof (cases "T = {}")
    case True
    with T have "edges s n = Some {}" by simp
    from loop_body_terminal [OF Some this ok] show ?thesis by simp
  next
    case False
    from a1 a2 T have ts: "set ts = T" "set ts' = T" by (simp_all add: admissible_def)
    from ep T k have Tr: "T \<subseteq> dom (rev_edges s)"
      by (simp add: endpoints_ok_def keys_ok_def)
    note x = loop_body_inner [OF Some T False ts(1) Tr]
    note y = loop_body_inner [OF Some T False ts(2) Tr]
    have "snd (loop_body n ts s) = snd (loop_body n ts' s)"
    proof (rule dag.equality)
      show "rev_edges (snd (loop_body n ts s)) = rev_edges (snd (loop_body n ts' s))"
        by (rule ext) (simp only: x(4) y(4))
      show "longest_in_weight (snd (loop_body n ts s)) = longest_in_weight (snd (loop_body n ts' s))"
        by (rule ext) (simp only: x(6) y(6))
      show "longest_in_route (snd (loop_body n ts s)) = longest_in_route (snd (loop_body n ts' s))"
        by (rule ext) (simp only: x(7) y(7))
    qed (simp_all add: x(2,3,5,8,9) y(2,3,5,8,9))
    with x(1) y(1) show ?thesis by (simp add: prod_eq_iff)
  qed
qed

section \<open>The loop ends in every constructed state\<close>

lemma loop_measure_step:
  assumes inv: "route_inv g s" and fin: "finite (dom (nodes g))" and adm: "admissible s (n, ts)"
  shows "loop_measure (snd (loop_body n ts s)) < loop_measure s"
proof -
  let ?s' = "snd (loop_body n ts s)"
  let ?A = "\<lambda>s. {a. \<exists>T. edges s a = Some T \<and> T \<noteq> {}}"
  let ?N = "card (dom (nodes g))"
  from inv have ns: "nodes s = nodes g" and ei: "engine_inv s"
    and us: "unseen_sources s \<subseteq> dom (nodes g)"
    by (simp_all add: route_inv_def)
  from ei have k: "keys_ok s" and ep: "endpoints_ok s" and ok: "best_ok s"
    by (simp_all add: engine_inv_def)
  from route_inv_step [OF inv adm] have inv': "route_inv g ?s'" by simp
  then have ns': "nodes ?s' = nodes g" and us': "unseen_sources ?s' \<subseteq> dom (nodes g)"
    by (simp_all add: route_inv_def)
  from adm have nu: "n \<in> unseen_sources s" by (simp add: admissible_def)
  with us have nd: "n \<in> dom (nodes g)" by blast
  then obtain w where w: "nodes s n = Some w" by (auto simp: ns)
  from nd ns k have "n \<in> dom (edges s)" by (simp add: keys_ok_def)
  then obtain T where T: "edges s n = Some T" by blast
  have fu: "finite (unseen_sources s)" by (rule finite_subset [OF us fin])
  have "?A s \<subseteq> dom (edges s)" by auto
  with k ns fin have fA: "finite (?A s)" by (simp add: keys_ok_def finite_subset)
  show ?thesis
  proof (cases "T = {}")
    case True
    with T have T0: "edges s n = Some {}" by simp
    note lb = loop_body_terminal [OF w T0 ok, of ts]
    have e': "edges ?s' = edges s" and u': "unseen_sources ?s' = unseen_sources s - {n}"
      by (simp_all add: lb)
    have "card (unseen_sources s - {n}) < card (unseen_sources s)"
      by (rule card_Diff1_less [OF fu nu])
    then show ?thesis
      unfolding loop_measure_def e' u' ns ns' by simp
  next
    case False
    from adm T have ts: "set ts = T" by (simp add: admissible_def)
    from ep T have Tn: "T \<subseteq> dom (nodes s)" by (simp add: endpoints_ok_def)
    with k have Tr: "T \<subseteq> dom (rev_edges s)" by (simp add: keys_ok_def)
    note lb = loop_body_inner [OF w T False ts Tr]
    have A': "?A ?s' = ?A s - {n}"
      unfolding lb(3) by auto
    have nA: "n \<in> ?A s" using T False by simp
    have cA: "card (?A s - {n}) < card (?A s)" by (rule card_Diff1_less [OF fA nA])
    have "card (unseen_sources ?s') \<le> ?N" by (rule card_mono [OF fin us'])
    then have "card (?A s - {n}) * (?N + 1) + card (unseen_sources ?s')
        < (card (?A s - {n}) + 1) * (?N + 1)" by simp
    also have "\<dots> \<le> card (?A s) * (?N + 1)"
      using cA by (intro mult_le_mono1) simp
    finally show ?thesis
      unfolding loop_measure_def A' ns ns' by simp
  qed
qed

lemma iterate_length:
  assumes fin: "finite (dom (nodes g))"
  shows "route_inv g s \<Longrightarrow> iterate cs s = Some (e, s') \<Longrightarrow>
         length cs + loop_measure s' \<le> loop_measure s"
proof (induction cs arbitrary: s)
  case Nil
  then show ?case by simp
next
  case (Cons c cs)
  obtain n ts where c: "c = (n, ts)" by (cases c)
  from Cons.prems(2) have adm: "admissible s (n, ts)"
    by (simp add: c split: if_splits)
  from route_inv_step [OF Cons.prems(1) adm] obtain s1 where
    b: "loop_body n ts s = (None, s1)" and inv1: "route_inv g s1"
    by (cases "loop_body n ts s") auto
  from Cons.prems(2) adm b have "iterate cs s1 = Some (e, s')" by (simp add: c)
  from Cons.IH [OF inv1 this] have "length cs + loop_measure s' \<le> loop_measure s1" .
  moreover from loop_measure_step [OF Cons.prems(1) fin adm] b
  have "loop_measure s1 < loop_measure s" by simp
  ultimately show ?case by simp
qed

lemma exists_return:
  assumes fin: "finite (dom (nodes g))"
  shows "route_inv g s \<Longrightarrow>
         \<exists>cs s'. iterate cs s = Some (None, s') \<and> unseen_sources s' = {}"
proof (induction "loop_measure s" arbitrary: s rule: less_induct)
  case less
  show ?case
  proof (cases "unseen_sources s = {}")
    case True
    then have "iterate [] s = Some (None, s) \<and> unseen_sources s = {}" by simp
    then show ?thesis by blast
  next
    case False
    then obtain n where n: "n \<in> unseen_sources s" by blast
    from less.prems have ns: "nodes s = nodes g" and ei: "engine_inv s"
      and us: "unseen_sources s \<subseteq> dom (nodes g)"
      by (simp_all add: route_inv_def)
    have "\<exists>ts. admissible s (n, ts)"
    proof (cases "edges s n")
      case None
      with n show ?thesis by (simp add: admissible_def)
    next
      case (Some T)
      with ei have "T \<subseteq> dom (nodes s)" by (simp add: engine_inv_def endpoints_ok_def)
      with fin ns have "finite T" by (simp add: finite_subset)
      from finite_distinct_list [OF this] obtain ts where "set ts = T" "distinct ts" by blast
      with n Some show ?thesis by (auto simp: admissible_def)
    qed
    then obtain ts where adm: "admissible s (n, ts)" ..
    from route_inv_step [OF less.prems adm] obtain s1 where
      b: "loop_body n ts s = (None, s1)" and inv1: "route_inv g s1"
      by (cases "loop_body n ts s") auto
    from loop_measure_step [OF less.prems fin adm] b
    have "loop_measure s1 < loop_measure s" by simp
    from less.hyps [OF this inv1] obtain cs s' where
      run: "iterate cs s1 = Some (None, s')" and emp: "unseen_sources s' = {}" by blast
    from adm b run have "iterate ((n, ts) # cs) s = Some (None, s')" by simp
    with emp show ?thesis by blast
  qed
qed

section \<open>States built with a label added twice\<close>

lemmas run_defs = longest_path_def admissible_def loop_body_def del_edges_from_def
  add_node_def add_edge_def init_def get0_def get_nil_def Let_def insert_Diff_if

lemma built_sync:
  assumes "build calls init = (None, g)" and "write_once calls \<or> views_sync g"
  shows "views_sync g"
  using assms write_once_sync [of calls] by auto

lemma acyclic_no_edges: "acyclic ({} :: ('a \<times> 'a) set)"
  by (simp add: acyclic_def)

lemma stale_target_acyclic: "acyclic (edge_rel stale_target)"
proof -
  have "edge_rel stale_target = {}"
    by (auto simp: edge_rel_def has_edge_def stale_target_def stale_target_calls_def
        add_node_def add_edge_def init_def split: if_splits)
  then show ?thesis by (simp add: acyclic_no_edges)
qed

lemma stale_source_acyclic: "acyclic (edge_rel stale_source)"
proof -
  have "edge_rel stale_source = {(1, 0)}"
    by (auto simp: edge_rel_def has_edge_def stale_source_def stale_source_calls_def
        add_node_def add_edge_def init_def split: if_splits)
  then show ?thesis by (simp add: acyclic_no_edges)
qed

lemma stale_chain_acyclic: "acyclic (edge_rel stale_chain)"
  by (rule acyclic_increasing)
    (auto simp: has_edge_def stale_chain_def stale_chain_calls_def
      add_node_def add_edge_def init_def split: if_splits)

lemma fork_write_once: "write_once fork_calls"
  by (simp add: write_once_def fork_calls_def)

section \<open>Claims about construction\<close>

text \<open>
  C5. In every state and for every label, \<open>add_node\<close> with a weight below zero raises
  the negative-weight error (the spec's \<open>InvalidWeight\<close>) and the state it leaves is the
  state it found: node store, both adjacency views, frontier and best-path table.
\<close>

theorem add_node_negative_weight:
  "weight < 0 \<Longrightarrow> add_node label weight s = (Some NegativeWeight, s)"
  by (simp add: add_node_def)

theorem add_node_negative_weight_witness:
  "(-1::int) < 0 \<and>
   add_node (7::nat) (-1) (snd (add_node 7 3 init)) = (Some NegativeWeight, snd (add_node 7 3 init))"
  using add_node_negative_weight [of "-1" "7::nat" "snd (add_node 7 3 init)"] by simp

text \<open>
  C6. In every engine state, \<open>add_edge\<close> with an unregistered source raises the error
  that names the source; with a registered source and an unregistered target it raises
  the error that names the target; in both cases the state is unchanged. With both
  endpoints registered the call raises nothing.
\<close>

theorem add_edge_unknown_node:
  assumes "engine_state s"
  shows "(source \<notin> dom (nodes s) \<longrightarrow>
            add_edge source target s = (Some (SourceNotNode source), s)) \<and>
         (source \<in> dom (nodes s) \<and> target \<notin> dom (nodes s) \<longrightarrow>
            add_edge source target s = (Some (TargetNotNode target), s)) \<and>
         (source \<in> dom (nodes s) \<and> target \<in> dom (nodes s) \<longrightarrow>
            fst (add_edge source target s) = None)"
proof -
  from engine_state_inv [OF assms] have "keys_ok s" by (simp add: engine_inv_def)
  then show ?thesis
    by (auto simp: add_edge_def keys_ok_def Let_def split: option.splits)
qed

theorem add_edge_unknown_node_witness:
  "engine_state (snd (add_node (1::nat) 5 init)) \<and>
   add_edge 2 1 (snd (add_node (1::nat) 5 init)) = (Some (SourceNotNode 2), snd (add_node 1 5 init)) \<and>
   add_edge 1 3 (snd (add_node (1::nat) 5 init)) = (Some (TargetNotNode 3), snd (add_node 1 5 init)) \<and>
   fst (add_edge 1 1 (snd (add_node (1::nat) 5 init))) = None"
proof -
  have es: "engine_state (snd (add_node (1::nat) 5 init))"
    by (rule es_add_node [OF es_init])
  have d: "dom (nodes (snd (add_node (1::nat) 5 init))) = {1}"
    by (simp add: add_node_def init_def)
  show ?thesis
    using es add_edge_unknown_node [OF es, of 2 1] add_edge_unknown_node [OF es, of 1 3]
      add_edge_unknown_node [OF es, of 1 1] d
    by simp
qed

text \<open>
  The invariant of C4 does not survive re-adding a label that already has an incoming
  edge: \<open>add_node\<close> resets the label's own two adjacency sets and leaves the label in
  its neighbours' sets. After the four calls below, none of which raises, the forward
  view still holds the edge from 0 to 1 and the reverse view does not.
\<close>

theorem readd_breaks_views_counterexample:
  "fst (build [AddNode (0::nat) 1, AddNode 1 1, AddEdge 0 1, AddNode 1 1] init) = None \<and>
   has_edge (snd (build [AddNode (0::nat) 1, AddNode 1 1, AddEdge 0 1, AddNode 1 1] init)) 0 1 \<and>
   \<not> has_rev_edge (snd (build [AddNode (0::nat) 1, AddNode 1 1, AddEdge 0 1, AddNode 1 1] init)) 0 1"
  by (simp add: add_node_def add_edge_def init_def has_edge_def has_rev_edge_def)

text \<open>
  C4, as amended. The views of the fresh engine are synchronized. A call of
  \<open>add_edge\<close> in an engine state with synchronized views leaves them synchronized,
  whether it raises or not; so does a call of \<open>add_node\<close> whose label is not yet
  registered or has no edge from it or to it. Hence the views are synchronized after
  every write-once sequence of construction calls.
\<close>

theorem views_synchronized_after_mutation:
  fixes s :: "'l dag"
  shows "views_sync (init :: 'l dag) \<and>
     (engine_state s \<and> views_sync s \<longrightarrow> views_sync (snd (add_edge source target s))) \<and>
     (engine_state s \<and> views_sync s \<and> (label \<notin> dom (nodes s) \<or> isolated s label) \<longrightarrow>
        views_sync (snd (add_node label weight s))) \<and>
     (write_once calls \<longrightarrow> views_sync (snd (build calls (init :: 'l dag))))"
proof (intro conjI impI)
  show "views_sync (init :: 'l dag)" by (rule views_sync_init)
  show "views_sync (snd (add_edge source target s))" if "engine_state s \<and> views_sync s"
  proof -
    from that engine_state_inv [of s] have "keys_ok s" by (simp add: engine_inv_def)
    from views_sync_add_edge [OF this] that show ?thesis by simp
  qed
  show "views_sync (snd (add_node label weight s))"
    if "engine_state s \<and> views_sync s \<and> (label \<notin> dom (nodes s) \<or> isolated s label)"
  proof -
    from that engine_state_inv [of s] have "engine_inv s" by simp
    with that have "isolated s label" using unregistered_isolated [of s label] by blast
    from views_sync_add_node [OF _ this] that show ?thesis by simp
  qed
  show "views_sync (snd (build calls (init :: 'l dag)))" if "write_once calls"
    using that by (rule write_once_sync)
qed

theorem views_synchronized_after_mutation_witness:
  "write_once fork_calls \<and> views_sync (snd (build fork_calls init)) \<and>
   engine_state fork \<and> views_sync fork \<and> views_sync (snd (add_edge 0 1 fork)) \<and>
   3 \<notin> dom (nodes fork) \<and> views_sync (snd (add_node 3 7 fork))"
proof -
  have w: "write_once fork_calls" by (simp add: write_once_def fork_calls_def)
  have n: "3 \<notin> dom (nodes fork)"
    by (simp add: fork_def fork_calls_def add_node_def add_edge_def init_def)
  from views_synchronized_after_mutation [of fork 0 1 3 7 fork_calls] w
  have s: "views_sync fork" by (simp add: fork_def)
  with views_synchronized_after_mutation [of fork 0 1 3 7 fork_calls] w n fork_engine_state
  show ?thesis by (simp add: fork_def)
qed

section \<open>Claims about the traversal\<close>

text \<open>
  C10. Whatever choices the loop makes and whatever state it starts from, a call of
  \<open>longest_path\<close> that returns or raises leaves the node store as it found it: the
  same labels with the same weights.
\<close>

theorem longest_path_keeps_nodes:
  "longest_path cs s = Some (r, s') \<Longrightarrow> nodes s' = nodes s"
  by (rule longest_path_nodes)

theorem longest_path_keeps_nodes_witness:
  "longest_path [(0, [1]), (1, [])]
     (snd (build [AddNode (0::nat) 2, AddNode 1 3, AddEdge 0 1] init))
   = Some (Inr (Some [0, 1], Some 5),
       snd (the (longest_path [(0, [1]), (1, [])]
         (snd (build [AddNode (0::nat) 2, AddNode 1 3, AddEdge 0 1] init))))) \<and>
   nodes (snd (the (longest_path [(0, [1]), (1, [])]
         (snd (build [AddNode (0::nat) 2, AddNode 1 3, AddEdge 0 1] init))))) 
   = nodes (snd (build [AddNode (0::nat) 2, AddNode 1 3, AddEdge 0 1] init))"
proof -
  let ?g = "snd (build [AddNode (0::nat) 2, AddNode 1 3, AddEdge 0 1] init)"
  have run: "longest_path [(0, [1]), (1, [])] ?g
       = Some (Inr (Some [0, 1], Some 5), snd (the (longest_path [(0, [1]), (1, [])] ?g)))"
    by (simp add: longest_path_def admissible_def loop_body_def del_edges_from_def
        add_node_def add_edge_def init_def get0_def get_nil_def)
  from longest_path_keeps_nodes [OF run] run show ?thesis by simp
qed

text \<open>
  C7. When the loop pops a node \<open>n\<close> that has no outgoing edges, the iteration raises
  nothing, and the global best after it is the finalized route and weight of \<open>n\<close> if
  there was no global best or its weight was strictly below the finalized weight;
  otherwise it is the global best from before. A finalized weight equal to the best
  weight therefore leaves the best in place.
\<close>

theorem terminal_replaces_iff_strictly_greater:
  assumes "engine_state s" and "admissible s (n, ts)" and "edges s n = Some {}"
  shows "fst (loop_body n ts s) = None \<and>
         (longest_route (snd (loop_body n ts s)), longest_route_weight (snd (loop_body n ts s))) =
           (if longest_route s = None \<or>
               (\<exists>best. longest_route_weight s = Some best \<and> best < new_weight_of s n)
            then (Some (new_route_of s n), Some (new_weight_of s n))
            else (longest_route s, longest_route_weight s))"
proof -
  from engine_state_inv [OF assms(1)] have k: "keys_ok s" and b: "best_ok s"
    by (simp_all add: engine_inv_def)
  from k assms(3) obtain w where w: "nodes s n = Some w"
    by (auto simp: keys_ok_def)
  show ?thesis
    unfolding loop_body_terminal [OF w assms(3) b] using b by (auto simp: best_ok_def)
qed

theorem terminal_replaces_iff_strictly_greater_witness:
  "engine_state two_equal \<and>
   admissible two_equal (1, []) \<and> edges two_equal 1 = Some {} \<and>
   longest_route_weight two_equal = Some 4 \<and> new_weight_of two_equal 1 = 4 \<and>
   longest_route (snd (loop_body 1 [] two_equal)) = Some [0] \<and>
   longest_route_weight (snd (loop_body 1 [] two_equal)) = Some 4 \<and>
   admissible two_equal (2, []) \<and> edges two_equal 2 = Some {} \<and>
   new_weight_of two_equal 2 = 5 \<and>
   longest_route (snd (loop_body 2 [] two_equal)) = Some [2] \<and>
   longest_route_weight (snd (loop_body 2 [] two_equal)) = Some 5"
  using terminal_replaces_iff_strictly_greater
          [OF two_equal_engine_state two_equal_fields(5) two_equal_fields(3)]
        terminal_replaces_iff_strictly_greater
          [OF two_equal_engine_state two_equal_fields(6) two_equal_fields(4)]
        two_equal_engine_state two_equal_fields
  by simp

text \<open>
  C1 does not hold of every graph the calls can build. Below, node 0 is added again
  after the edge from 0 to 1. No call raises and the edges are acyclic, but node 1 has
  left the frontier for good: the run pops node 0 alone and returns weight 1, while
  the single node 1 is a path of weight 10.
\<close>

theorem readd_wrong_weight_counterexample:
  "build stale_target_calls init = (None, stale_target) \<and>
   acyclic (edge_rel stale_target) \<and>
   map_option fst (longest_path [(0, [])] stale_target) = Some (Inr (Some [0], Some 1)) \<and>
   is_path stale_target [1] \<and> path_weight stale_target [1] = 10"
  using stale_target_acyclic
  by (simp add: stale_target_def stale_target_calls_def run_defs is_path_def weight_of_def)

text \<open>
  C1, as amended. Let \<open>g\<close> be the state that construction calls starting from the
  fresh engine leave without raising, let no label be added twice (or, more generally,
  let the two views of \<open>g\<close> hold the same edges), and let the edges be acyclic. Then
  \<open>longest_path\<close> can return on \<open>g\<close>, and every call that ends, whatever the loop
  pops, returns a pair whose weight is the maximum of the weights of the directed paths
  of \<open>g\<close>, single nodes included (and \<open>None\<close> when \<open>g\<close> has no node).
\<close>

theorem write_once_weight_is_maximum:
  assumes "build calls init = (None, g)" and "write_once calls \<or> views_sync g"
    and "acyclic (edge_rel g)"
  shows "(\<exists>cs route s'. longest_path cs g = Some (Inr (route, max_path_weight g), s')) \<and>
         (\<forall>cs result s'. longest_path cs g = Some (result, s') \<longrightarrow>
            (\<exists>route. result = Inr (route, max_path_weight g)))"
proof -
  note fg = built_fresh [OF assms(1)]
  note sync = built_sync [OF assms(1,2)]
  have every: "\<exists>route. result = Inr (route, max_path_weight g)"
    if "longest_path cs g = Some (result, s')" for cs result s'
    by (rule run_weight [OF fg sync assms(3) that])
  from exists_run [OF fg sync loop_inv_start [OF fg]] obtain cs s' where
    "iterate cs g = Some (None, s')" and "unseen_sources s' = {}" by blast
  then have run: "longest_path cs g = Some (Inr (longest_route s', longest_route_weight s'), s')"
    by (simp add: longest_path_def)
  from every [OF run] have "longest_route_weight s' = max_path_weight g" by simp
  with run have "longest_path cs g = Some (Inr (longest_route s', max_path_weight g), s')"
    by simp
  with every show ?thesis by blast
qed

theorem write_once_weight_is_maximum_witness:
  "build fork_calls init = (None, fork) \<and> write_once fork_calls \<and>
   acyclic (edge_rel fork) \<and>
   map_option fst (longest_path [(0, [2]), (1, [2]), (2, [])] fork)
     = Some (Inr (Some [0, 2], Some 2)) \<and>
   max_path_weight fork = Some 2"
proof -
  from fork_run_a obtain s' where
    run: "longest_path [(0, [2]), (1, [2]), (2, [])] fork = Some (Inr (Some [0, 2], Some 2), s')"
    by (rule run_option)
  from write_once_weight_is_maximum [OF fork_built disjI1 [OF fork_write_once] fork_acyclic] run
  have "\<exists>route. Inr (Some [0, 2], Some 2) = Inr (route, max_path_weight fork)" by blast
  then have "max_path_weight fork = Some 2" by simp
  with fork_built fork_write_once fork_acyclic fork_run_a show ?thesis by simp
qed

text \<open>
  C2. Let \<open>g\<close> be the state that construction calls starting from the fresh engine
  leave without raising. If a call of \<open>longest_path\<close> on \<open>g\<close> returns a route, the
  route is a path of \<open>g\<close>: its labels are nodes, consecutive labels are joined by an edge
  that \<open>g\<close> held before the call, and the returned weight is the sum of the weights of
  its nodes.
\<close>

theorem returned_route_is_path:
  assumes "build calls init = (None, g)"
    and "longest_path cs g = Some (Inr (Some route, total_weight), s')"
  shows "is_path g route \<and> successively (has_edge g) route \<and>
         total_weight = Some (path_weight g route)"
proof -
  note fg = built_fresh [OF assms(1)]
  from assms(2) obtain e where it: "iterate cs g = Some (e, s')"
    and res: "longest_route s' = Some route" "longest_route_weight s' = total_weight"
    by (auto simp: longest_path_def split: option.splits if_splits)
  from route_inv_iterate [OF route_inv_start [OF fg] it]
  have "route_inv g s'" by simp
  with res show ?thesis by (auto simp: route_inv_def is_path_def)
qed

theorem returned_route_is_path_witness:
  "build fork_calls init = (None, fork) \<and>
   map_option fst (longest_path [(1, [2]), (0, [2]), (2, [])] fork)
     = Some (Inr (Some [1, 2], Some 2)) \<and>
   is_path fork [1, 2] \<and> has_edge fork 1 2 \<and> path_weight fork [1, 2] = 2"
proof -
  from fork_run_b obtain s' where
    run: "longest_path [(1, [2]), (0, [2]), (2, [])] fork = Some (Inr (Some [1, 2], Some 2), s')"
    by (rule run_option)
  from returned_route_is_path [OF fork_built run]
  have "is_path fork [1, 2] \<and> has_edge fork 1 2 \<and> path_weight fork [1, 2] = 2" by simp
  with fork_built fork_run_b show ?thesis by simp
qed

text \<open>
  C9 does not hold of every graph the calls can build. Below, node 1 is added again
  between the two edges of the chain from 0 over 1 to 2. No call raises and the edges
  are acyclic. Popping 0, 1, 2 returns weight 3; popping 1, 2, 0, 1 returns weight 2.
\<close>

theorem readd_order_dependent_counterexample:
  "build stale_chain_calls init = (None, stale_chain) \<and>
   acyclic (edge_rel stale_chain) \<and>
   map_option fst (longest_path [(0, [1]), (1, [2]), (2, [])] stale_chain)
     = Some (Inr (Some [0, 1, 2], Some 3)) \<and>
   map_option fst (longest_path [(1, [2]), (2, []), (0, [1]), (1, [])] stale_chain)
     = Some (Inr (Some [1, 2], Some 2))"
  using stale_chain_acyclic
  by (simp add: stale_chain_def stale_chain_calls_def run_defs)

text \<open>
  C9, as amended. Let \<open>g\<close> be as in C1 as amended: constructed without adding a label
  twice (or with synchronized views), and acyclic. Two calls of \<open>longest_path\<close> on
  \<open>g\<close> that pop the frontier in different orders return the same weight, and each
  returned route has that weight; only the route may differ.
\<close>

theorem write_once_weight_independent_of_pop_order:
  assumes "build calls init = (None, g)" and "write_once calls \<or> views_sync g"
    and "acyclic (edge_rel g)"
    and "longest_path cs1 g = Some (Inr (route1, weight1), s1)"
    and "longest_path cs2 g = Some (Inr (route2, weight2), s2)"
  shows "weight1 = weight2 \<and>
         map_option (path_weight g) route1 = weight1 \<and>
         map_option (path_weight g) route2 = weight2"
proof -
  note fg = built_fresh [OF assms(1)]
  note sync = built_sync [OF assms(1,2)]
  have "map_option (path_weight g) r = w \<and> w = max_path_weight g"
    if run: "longest_path cs g = Some (Inr (r, w), s')" for cs r w s'
  proof -
    note rr = run_result [OF fg sync assms(3) run]
    note fb = final_best [OF fg assms(3) rr(4)]
    from rr(1) have r: "longest_route s' = r" and w: "longest_route_weight s' = w" by simp_all
    from run_weight [OF fg sync assms(3) run] have "w = max_path_weight g" by simp
    moreover have "map_option (path_weight g) r = w"
    proof (cases r)
      case None
      with fb(3) r w show ?thesis by (simp add: best_ok_def)
    next
      case (Some x)
      with fb(1) [of x] r w show ?thesis by simp
    qed
    ultimately show ?thesis by simp
  qed
  from this [OF assms(4)] this [OF assms(5)] show ?thesis by simp
qed

theorem write_once_weight_independent_of_pop_order_witness:
  "build fork_calls init = (None, fork) \<and> write_once fork_calls \<and>
   acyclic (edge_rel fork) \<and>
   map_option fst (longest_path [(0, [2]), (1, [2]), (2, [])] fork)
     = Some (Inr (Some [0, 2], Some 2)) \<and>
   map_option fst (longest_path [(1, [2]), (0, [2]), (2, [])] fork)
     = Some (Inr (Some [1, 2], Some 2)) \<and>
   Some (path_weight fork [0, 2]) = Some (path_weight fork [1, 2])"
proof -
  from fork_run_a obtain s1 where
    a: "longest_path [(0, [2]), (1, [2]), (2, [])] fork = Some (Inr (Some [0, 2], Some 2), s1)"
    by (rule run_option)
  from fork_run_b obtain s2 where
    b: "longest_path [(1, [2]), (0, [2]), (2, [])] fork = Some (Inr (Some [1, 2], Some 2), s2)"
    by (rule run_option)
  from write_once_weight_independent_of_pop_order
         [OF fork_built disjI1 [OF fork_write_once] fork_acyclic a b]
  have "Some (path_weight fork [0, 2]) = Some (path_weight fork [1, 2])" by simp
  with fork_built fork_write_once fork_acyclic fork_run_a fork_run_b show ?thesis by simp
qed

text \<open>
  The second half of C8 does not hold of every graph the calls can build. Below, node
  0 is added again after the edge from 1 to 0. No call raises and the edges are
  acyclic. The run that pops 0, then 1, then 0 again returns: node 0 is finalized
  twice.
\<close>

theorem readd_pops_twice_counterexample:
  "build stale_source_calls init = (None, stale_source) \<and>
   acyclic (edge_rel stale_source) \<and>
   map_option fst (longest_path [(0, []), (1, [0]), (0, [])] stale_source)
     = Some (Inr (Some [1, 0], Some 2)) \<and>
   map fst [(0::nat, []::nat list), (1, [0]), (0, [])] = [0, 1, 0] \<and>
   \<not> distinct (map fst [(0::nat, []::nat list), (1, [0]), (0, [])])"
  using stale_source_acyclic
  by (simp add: stale_source_def stale_source_calls_def run_defs)

text \<open>
  C8, as amended. Let \<open>g\<close> be the state that construction calls starting from the
  fresh engine leave without raising. Every sequence of iterations the loop can make on
  \<open>g\<close> raises nothing, is no longer than \<open>loop_measure g\<close>, and can be prolonged
  to a run that returns: the loop ends. If moreover no label was added twice (or the
  two views hold the same edges) and the edges are acyclic, every such sequence pops
  pairwise distinct nodes, and in every run that returns the popped nodes are exactly
  the nodes of the graph, each popped once.
\<close>

theorem terminates_and_write_once_pops_each_node_once:
  assumes "build calls init = (None, g)"
  shows "(\<forall>cs e s1. iterate cs g = Some (e, s1) \<longrightarrow>
            e = None \<and> length cs \<le> loop_measure g \<and>
            (\<exists>cs' res s'. longest_path (cs @ cs') g = Some (Inr res, s'))) \<and>
         ((write_once calls \<or> views_sync g) \<and> acyclic (edge_rel g) \<longrightarrow>
            (\<forall>cs e s1. iterate cs g = Some (e, s1) \<longrightarrow>
               distinct (map fst cs) \<and> set (map fst cs) \<subseteq> dom (nodes g) \<and>
               length cs \<le> card (dom (nodes g))) \<and>
            (\<forall>cs result s'. longest_path cs g = Some (result, s') \<longrightarrow>
               distinct (map fst cs) \<and> set (map fst cs) = dom (nodes g) \<and>
               length cs = card (dom (nodes g))))"
proof -
  note fg = built_fresh [OF assms]
  from fg have fin: "finite (dom (nodes g))" by (simp add: fresh_graph_def)
  note r0 = route_inv_start [OF fg]
  have general: "e = None \<and> length cs \<le> loop_measure g \<and>
      (\<exists>cs' res s'. longest_path (cs @ cs') g = Some (Inr res, s'))"
    if it: "iterate cs g = Some (e, s1)" for cs e s1
  proof -
    from route_inv_iterate [OF r0 it] have e: "e = None" and r1: "route_inv g s1" by simp_all
    from iterate_length [OF fin r0 it] have len: "length cs \<le> loop_measure g" by simp
    from exists_return [OF fin r1] obtain cs' s' where
      run: "iterate cs' s1 = Some (None, s')" and emp: "unseen_sources s' = {}" by blast
    from it e have "iterate (cs @ cs') g = iterate cs' s1" by (simp add: iterate_append)
    with run emp have "longest_path (cs @ cs') g
        = Some (Inr (longest_route s', longest_route_weight s'), s')"
      by (simp add: longest_path_def)
    with e len show ?thesis by blast
  qed
  have once: "(\<forall>cs e s1. iterate cs g = Some (e, s1) \<longrightarrow>
               distinct (map fst cs) \<and> set (map fst cs) \<subseteq> dom (nodes g) \<and>
               length cs \<le> card (dom (nodes g))) \<and>
            (\<forall>cs result s'. longest_path cs g = Some (result, s') \<longrightarrow>
               distinct (map fst cs) \<and> set (map fst cs) = dom (nodes g) \<and>
               length cs = card (dom (nodes g)))"
    if h: "(write_once calls \<or> views_sync g) \<and> acyclic (edge_rel g)"
  proof (intro conjI allI impI)
    from h have acyc: "acyclic (edge_rel g)" by simp
    from h have sync: "views_sync g" using built_sync [OF assms] by simp
    {
      fix cs e s1 assume it: "iterate cs g = Some (e, s1)"
      note ii = iterate_inv [OF fg sync loop_inv_start [OF fg] it]
      from ii show d: "distinct (map fst cs)"
        and sub: "set (map fst cs) \<subseteq> dom (nodes g)" by simp_all
      from d have "length cs = card (set (map fst cs))"
        using distinct_card [of "map fst cs"] by simp
      also have "\<dots> \<le> card (dom (nodes g))" by (rule card_mono [OF fin sub])
      finally show "length cs \<le> card (dom (nodes g))" .
    }
    {
      fix cs result s' assume run: "longest_path cs g = Some (result, s')"
      note rr = run_result [OF fg sync acyc run]
      from rr show d: "distinct (map fst cs)" and all: "set (map fst cs) = dom (nodes g)"
        by simp_all
      from d have "length cs = card (set (map fst cs))"
        using distinct_card [of "map fst cs"] by simp
      with all show "length cs = card (dom (nodes g))" by simp
    }
  qed
  from general once show ?thesis by blast
qed

theorem terminates_and_write_once_pops_each_node_once_witness:
  "build fork_calls init = (None, fork) \<and> write_once fork_calls \<and>
   acyclic (edge_rel fork) \<and>
   map_option fst (longest_path [(1, [2]), (0, [2]), (2, [])] fork)
     = Some (Inr (Some [1, 2], Some 2)) \<and>
   distinct (map fst [(1::nat, [2::nat]), (0, [2]), (2, [])]) \<and>
   set (map fst [(1::nat, [2::nat]), (0, [2]), (2, [])]) = dom (nodes fork) \<and>
   length [(1::nat, [2::nat]), (0, [2]), (2, [])] = card (dom (nodes fork)) \<and>
   length [(1::nat, [2::nat]), (0, [2]), (2, [])] \<le> loop_measure fork"
proof -
  from fork_run_b obtain s' where
    run: "longest_path [(1, [2]), (0, [2]), (2, [])] fork = Some (Inr (Some [1, 2], Some 2), s')"
    by (rule run_option)
  then have it: "iterate [(1, [2]), (0, [2]), (2, [])] fork = Some (None, s')"
    by (auto simp: longest_path_def split: option.splits if_splits)
  note t = terminates_and_write_once_pops_each_node_once [OF fork_built]
  from t it have "length [(1::nat, [2::nat]), (0, [2]), (2, [])] \<le> loop_measure fork"
    by blast
  moreover from t fork_write_once fork_acyclic run
  have "distinct (map fst [(1::nat, [2::nat]), (0, [2]), (2, [])]) \<and>
        set (map fst [(1::nat, [2::nat]), (0, [2]), (2, [])]) = dom (nodes fork) \<and>
        length [(1::nat, [2::nat]), (0, [2]), (2, [])] = card (dom (nodes fork))"
    by blast
  ultimately show ?thesis
    using fork_built fork_write_once fork_acyclic fork_run_b by simp
qed

text \<open>
  What C3 says of the state after the call does not hold: after a first call on the
  fork graph has returned the route \<open>[0, 2]\<close> with weight 2, the node store still maps
  0 to its weight, the best-path table still holds the entry of node 2, and a second
  call returns the route \<open>[0, 2]\<close> with weight 2 again.
\<close>

theorem second_call_counterexample:
  "map_option fst (longest_path [(0, [2]), (1, [2]), (2, [])] fork)
     = Some (Inr (Some [0, 2], Some 2)) \<and>
   nodes (snd (the (longest_path [(0, [2]), (1, [2]), (2, [])] fork))) 0 = Some 1 \<and>
   longest_in_weight (snd (the (longest_path [(0, [2]), (1, [2]), (2, [])] fork))) 2 = Some 1 \<and>
   longest_in_route (snd (the (longest_path [(0, [2]), (1, [2]), (2, [])] fork))) 2 = Some [0] \<and>
   map_option fst (longest_path [] (snd (the (longest_path [(0, [2]), (1, [2]), (2, [])] fork))))
     = Some (Inr (Some [0, 2], Some 2))"
  by (simp add: fork_def fork_calls_def longest_path_def admissible_def loop_body_def
      del_edges_from_def add_node_def add_edge_def init_def get0_def get_nil_def Let_def
      insert_Diff_if)

text \<open>
  C3, as amended. Whatever state \<open>longest_path\<close> is called in, when it returns the
  frontier is empty and the global best is kept: a second call makes no iteration,
  returns the same pair as the first and leaves the state as it is. If the state was
  constructed without adding a label twice (or with synchronized views) and its edges
  are acyclic, every adjacency set of both views is empty after the call.
\<close>

theorem second_call_returns_the_same:
  assumes "longest_path cs g = Some (Inr result, s')"
  shows "unseen_sources s' = {} \<and>
         result = (longest_route s', longest_route_weight s') \<and>
         longest_path [] s' = Some (Inr result, s') \<and>
         (\<forall>c cs2. longest_path (c # cs2) s' = None) \<and>
         (build calls init = (None, g) \<and> (write_once calls \<or> views_sync g) \<and>
          acyclic (edge_rel g) \<longrightarrow>
            (\<forall>a. edges s' a = map_option (\<lambda>T. {}) (edges g a)) \<and>
            (\<forall>b. rev_edges s' b = map_option (\<lambda>R. {}) (rev_edges g b)))"
proof -
  from assms obtain e where it: "iterate cs g = Some (e, s')"
    by (auto simp: longest_path_def split: option.splits if_splits)
  from assms it have emp: "unseen_sources s' = {}"
    and res: "result = (longest_route s', longest_route_weight s')"
    by (auto simp: longest_path_def split: option.splits if_splits)
  have again: "longest_path [] s' = Some (Inr result, s')"
    using emp res by (simp add: longest_path_def)
  have none: "longest_path (c # cs2) s' = None" for c cs2
    using emp by (simp add: longest_path_def admissible_def)
  have consumed: "(\<forall>a. edges s' a = map_option (\<lambda>T. {}) (edges g a)) \<and>
            (\<forall>b. rev_edges s' b = map_option (\<lambda>R. {}) (rev_edges g b))"
    if h: "build calls init = (None, g) \<and> (write_once calls \<or> views_sync g) \<and>
          acyclic (edge_rel g)"
  proof -
    from h have b: "build calls init = (None, g)" and acyc: "acyclic (edge_rel g)" by simp_all
    note fg = built_fresh [OF b]
    from h have sync: "views_sync g" using built_sync [OF b] by simp
    note rr = run_result [OF fg sync acyc assms]
    from rr(4) have st: "store_inv g (dom (nodes g)) s'" by (simp add: loop_inv_def)
    from fg have k: "dom (edges g) = dom (nodes g)" and ep: "endpoints_ok g"
      by (simp_all add: fresh_graph_def engine_inv_def keys_ok_def)
    have "edges s' a = map_option (\<lambda>T. {}) (edges g a)" for a
    proof (cases "a \<in> dom (nodes g)")
      case True
      with st show ?thesis by (simp add: store_inv_def)
    next
      case False
      with k have "edges g a = None" by blast
      with st False show ?thesis by (simp add: store_inv_def)
    qed
    moreover have "rev_edges s' b = map_option (\<lambda>R. {}) (rev_edges g b)" for b
    proof (cases "rev_edges g b")
      case None
      with st show ?thesis by (simp add: store_inv_def)
    next
      case (Some R)
      with ep have "R - dom (nodes g) = {}" by (auto simp: endpoints_ok_def)
      with st Some show ?thesis by (simp add: store_inv_def)
    qed
    ultimately show ?thesis by simp
  qed
  from emp res again none consumed show ?thesis by blast
qed

theorem second_call_returns_the_same_witness:
  "build fork_calls init = (None, fork) \<and> write_once fork_calls \<and>
   acyclic (edge_rel fork) \<and>
   map_option fst (longest_path [(0, [2]), (1, [2]), (2, [])] fork)
     = Some (Inr (Some [0, 2], Some 2)) \<and>
   edges (snd (the (longest_path [(0, [2]), (1, [2]), (2, [])] fork))) 0 = Some {} \<and>
   rev_edges (snd (the (longest_path [(0, [2]), (1, [2]), (2, [])] fork))) 2 = Some {} \<and>
   map_option fst (longest_path [] (snd (the (longest_path [(0, [2]), (1, [2]), (2, [])] fork))))
     = Some (Inr (Some [0, 2], Some 2))"
proof -
  from fork_run_a obtain s' where
    run: "longest_path [(0, [2]), (1, [2]), (2, [])] fork = Some (Inr (Some [0, 2], Some 2), s')"
    by (rule run_option)
  have e0: "edges fork 0 = Some {2}" "rev_edges fork 2 = Some {1, 0}"
    by (simp_all add: fork_def fork_calls_def add_node_def add_edge_def init_def)
  from second_call_returns_the_same [OF run, of fork_calls]
    fork_built fork_write_once fork_acyclic e0
  have "edges s' 0 = Some {} \<and> rev_edges s' 2 = Some {} \<and>
        map_option fst (longest_path [] s') = Some (Inr (Some [0, 2], Some 2))"
    by simp
  with run fork_built fork_write_once fork_acyclic fork_run_a show ?thesis by simp
qed

end
